theory Spec2Isabelle
  imports Main "HOL-Library.Sublist" "HOL-Library.Char_ord" "HOL-Library.List_Lexorder"
    "HOL-Library.Product_Lexorder"
begin

section \<open>Text primitives\<close>

text \<open>
  Python strings are modelled as \<^typ>\<open>string\<close>. The model covers ASCII text: a character
  is classified and case-mapped through its code, and the codes from 128 on are neither
  whitespace nor digits nor letters.
\<close>

definition isspace :: "char \<Rightarrow> bool" where
  "isspace c = (let n = (of_char c :: nat) in (9 \<le> n \<and> n \<le> 13) \<or> (28 \<le> n \<and> n \<le> 32))"

definition isdigit :: "char \<Rightarrow> bool" where
  "isdigit c = (let n = (of_char c :: nat) in 48 \<le> n \<and> n \<le> 57)"

definition lower_char :: "char \<Rightarrow> char" where
  "lower_char c = (let n = (of_char c :: nat) in if 65 \<le> n \<and> n \<le> 90 then char_of (n + 32) else c)"

definition upper_char :: "char \<Rightarrow> char" where
  "upper_char c = (let n = (of_char c :: nat) in if 97 \<le> n \<and> n \<le> 122 then char_of (n - 32) else c)"

text \<open>\<^verbatim>\<open>str.lower()\<close>, \<^verbatim>\<open>str.upper()\<close> and \<^verbatim>\<open>str.strip()\<close>.\<close>

definition lower :: "string \<Rightarrow> string" where
  "lower s = map lower_char s"

definition upper :: "string \<Rightarrow> string" where
  "upper s = map upper_char s"

definition strip :: "string \<Rightarrow> string" where
  "strip s = rev (dropWhile isspace (rev (dropWhile isspace s)))"

text \<open>
  \<^verbatim>\<open>pat in x\<close> on strings: \<open>pat\<close> occurs in \<open>x\<close> as a contiguous block.
\<close>

fun str_in :: "string \<Rightarrow> string \<Rightarrow> bool" where
  "str_in pat [] = (pat = [])"
| "str_in pat (c # cs) = (prefix pat (c # cs) \<or> str_in pat cs)"

section \<open>Keyword extraction (utils.py)\<close>

text \<open>
  \<^verbatim>\<open>re.split(r"\s+", s)\<close>: the pieces of \<open>s\<close> between maximal runs of whitespace. A
  run at the start or at the end of \<open>s\<close> leaves an empty piece there. The accumulator
  holds the current piece, reversed.
\<close>

function re_split_ws :: "string \<Rightarrow> string \<Rightarrow> string list" where
  "re_split_ws cur [] = [rev cur]"
| "re_split_ws cur (c # cs) =
     (if isspace c then rev cur # re_split_ws [] (dropWhile isspace cs)
      else re_split_ws (c # cur) cs)"
  by pat_completeness auto
termination
  by (relation "measure (\<lambda>(cur, s). length s)")
     (auto simp: length_dropWhile_le le_imp_less_Suc)

text \<open>\<^verbatim>\<open>re.fullmatch(r"\d+(\.\d+)?", t) is not None\<close>.\<close>

definition fullmatch_number :: "string \<Rightarrow> bool" where
  "fullmatch_number t =
     (let intpart = takeWhile isdigit t; rest = dropWhile isdigit t
      in intpart \<noteq> [] \<and>
         (case rest of
            [] \<Rightarrow> True
          | c # frac \<Rightarrow> c = CHR ''.'' \<and> frac \<noteq> [] \<and> list_all isdigit frac))"

text \<open>
  \<^verbatim>\<open>max(candidates, key=len)\<close> on a non-empty list: the first element of maximal
  length. The scan keeps the best element so far and replaces it only by a strictly
  longer one.
\<close>

fun max_by_len :: "string \<Rightarrow> string list \<Rightarrow> string" where
  "max_by_len best [] = best"
| "max_by_len best (t # ts) = (if length best < length t then max_by_len t ts else max_by_len best ts)"

definition extract_keyword_from_details :: "string \<Rightarrow> string option" where
  "extract_keyword_from_details details =
     (if details = [] then None
      else
        let tokens = re_split_ws [] (strip details);
            candidates = filter (\<lambda>t. 3 \<le> length t \<and> \<not> fullmatch_number t) tokens
        in case candidates of
             [] \<Rightarrow> None
           | c # cs \<Rightarrow> Some (upper (max_by_len c cs)))"

section \<open>Regular expressions\<close>

text \<open>
  \<^verbatim>\<open>Series.str.contains(pat, case=False, regex=True)\<close> compiles \<open>pat\<close> with
  \<^verbatim>\<open>re.compile(pat, flags=re.IGNORECASE)\<close> and keeps the rows where \<^verbatim>\<open>search\<close> finds a
  match. The \<^verbatim>\<open>re\<close> module is a library, not code of this program: the functions below
  take it as a parameter, an engine that maps a pattern either to an error or to the
  predicate "\<^verbatim>\<open>search\<close> finds a match in this text".
  \<open>RegexError\<close> is Python's \<^verbatim>\<open>re.error\<close>. \<open>Unsupported\<close> is returned only by the concrete
  engine \<open>re_compile_ignorecase\<close> defined below, for patterns that use syntax it does
  not cover.
\<close>

datatype error = RegexError | Unsupported

type_synonym matcher = "string \<Rightarrow> bool"

type_synonym regex_engine = "string \<Rightarrow> error + matcher"

subsection \<open>A concrete engine for a fragment of the syntax\<close>

text \<open>
  The fragment: literal characters, \<^verbatim>\<open>.\<close>, the anchors \<^verbatim>\<open>^\<close> and \<^verbatim>\<open>$\<close>, the classes
  \<^verbatim>\<open>\d \s \w \D \S \W\<close>, escaped punctuation, groups \<^verbatim>\<open>( )\<close>, alternation and the greedy
  quantifiers \<^verbatim>\<open>* + ?\<close>. Matching ignores case, \<^verbatim>\<open>.\<close> does not match a newline, \<^verbatim>\<open>^\<close>
  matches at the start of the text only and \<^verbatim>\<open>$\<close> at its end or before a final newline
  (no \<^verbatim>\<open>MULTILINE\<close>, no \<^verbatim>\<open>DOTALL\<close>).
\<close>

datatype charset = Literal char | AnyChar | DigitClass bool | SpaceClass bool | WordClass bool

datatype regex =
    Chr charset | Bol | Eol | Eps
  | Seq regex regex | Alt regex regex
  | Star regex | Plus regex | Opt regex

definition isword :: "char \<Rightarrow> bool" where
  "isword c = (let n = (of_char c :: nat)
     in (48 \<le> n \<and> n \<le> 57) \<or> (65 \<le> n \<and> n \<le> 90) \<or> (97 \<le> n \<and> n \<le> 122) \<or> n = 95)"

fun in_charset :: "charset \<Rightarrow> char \<Rightarrow> bool" where
  "in_charset (Literal c) x = (lower_char x = lower_char c)"
| "in_charset AnyChar x = (x \<noteq> CHR 0x0A)"
| "in_charset (DigitClass pos) x = (isdigit x = pos)"
| "in_charset (SpaceClass pos) x = (isspace x = pos)"
| "in_charset (WordClass pos) x = (isword x = pos)"

text \<open>
  \<open>saturate f n ps\<close> adds to the positions \<open>ps\<close> those that \<open>f\<close> reaches from them,
  \<open>n\<close> times over.
\<close>

fun saturate :: "(nat list \<Rightarrow> nat list) \<Rightarrow> nat \<Rightarrow> nat list \<Rightarrow> nat list" where
  "saturate f 0 ps = ps"
| "saturate f (Suc n) ps = saturate f n (remdups (ps @ f ps))"

text \<open>
  \<open>ends r s ps\<close>: the positions of \<open>s\<close> where a match of \<open>r\<close> can end when it starts at
  one of the positions \<open>ps\<close>. A repetition is saturated in \<open>length s + 1\<close> rounds, since
  there are no more positions than that.
\<close>

primrec ends :: "regex \<Rightarrow> string \<Rightarrow> nat list \<Rightarrow> nat list" where
  "ends (Chr cl) s ps = map Suc (filter (\<lambda>i. i < length s \<and> in_charset cl (s ! i)) ps)"
| "ends Bol s ps = filter (\<lambda>i. i = 0) ps"
| "ends Eol s ps = filter (\<lambda>i. i = length s \<or> (Suc i = length s \<and> s ! i = CHR 0x0A)) ps"
| "ends Eps s ps = ps"
| "ends (Seq a b) s ps = ends b s (ends a s ps)"
| "ends (Alt a b) s ps = remdups (ends a s ps @ ends b s ps)"
| "ends (Star a) s ps = saturate (ends a s) (Suc (length s)) ps"
| "ends (Plus a) s ps = saturate (ends a s) (Suc (length s)) (ends a s ps)"
| "ends (Opt a) s ps = remdups (ps @ ends a s ps)"

text \<open>\<^verbatim>\<open>pat.search(x) is not None\<close>: a match may start at any position.\<close>

definition search :: "regex \<Rightarrow> string \<Rightarrow> bool" where
  "search r s = (ends r s [0..<Suc (length s)] \<noteq> [])"

text \<open>
  The parser reads the pattern once, left to right. A frame holds the alternatives
  already closed by \<^verbatim>\<open>|\<close> and the items of the current alternative, both latest first;
  every open group has a frame of its own. An item remembers whether it can take a
  quantifier: an anchor cannot ("nothing to repeat"), an already quantified item cannot
  take \<^verbatim>\<open>*\<close> ("multiple repeat"), and a \<^verbatim>\<open>?\<close> or \<^verbatim>\<open>+\<close> after a quantifier (lazy and possessive
  quantifiers) is outside the fragment.
\<close>

datatype item_kind = Repeatable | Anchor | Repeated

type_synonym frame = "regex list \<times> (item_kind \<times> regex) list"

definition seq_of :: "(item_kind \<times> regex) list \<Rightarrow> regex" where
  "seq_of cur = foldl (\<lambda>acc item. Seq (snd item) acc) Eps cur"

definition close_frame :: "frame \<Rightarrow> regex" where
  "close_frame f = foldl (\<lambda>acc a. Alt a acc) (seq_of (snd f)) (fst f)"

definition quantify :: "char \<Rightarrow> regex \<Rightarrow> regex" where
  "quantify q r = (if q = CHR ''*'' then Star r else if q = CHR ''+'' then Plus r else Opt r)"

definition escape :: "char \<Rightarrow> charset option" where
  "escape e =
     (if e = CHR ''d'' then Some (DigitClass True) else if e = CHR ''D'' then Some (DigitClass False)
      else if e = CHR ''s'' then Some (SpaceClass True) else if e = CHR ''S'' then Some (SpaceClass False)
      else if e = CHR ''w'' then Some (WordClass True) else if e = CHR ''W'' then Some (WordClass False)
      else if isword e \<or> of_char e < (33 :: nat) \<or> (127 :: nat) \<le> of_char e then None
      else Some (Literal e))"

fun parse_loop :: "frame \<Rightarrow> frame list \<Rightarrow> string \<Rightarrow> error + regex" where
  "parse_loop cur_frame below [] = (if below = [] then Inr (close_frame cur_frame) else Inl RegexError)"
| "parse_loop cur_frame below (c # cs) =
     (if c = CHR ''('' then
        (case cs of
           [] \<Rightarrow> Inl RegexError
         | n # _ \<Rightarrow> if n = CHR ''?'' then Inl Unsupported else parse_loop ([], []) (cur_frame # below) cs)
      else if c = CHR '')'' then
        (case below of
           [] \<Rightarrow> Inl RegexError
         | outer # below' \<Rightarrow>
             parse_loop (fst outer, (Repeatable, close_frame cur_frame) # snd outer) below' cs)
      else if c = CHR ''|'' then parse_loop (seq_of (snd cur_frame) # fst cur_frame, []) below cs
      else if c = CHR ''*'' \<or> c = CHR ''+'' \<or> c = CHR ''?'' then
        (case snd cur_frame of
           [] \<Rightarrow> Inl RegexError
         | item # items \<Rightarrow>
             (case fst item of
                Anchor \<Rightarrow> Inl RegexError
              | Repeated \<Rightarrow> if c = CHR ''*'' then Inl RegexError else Inl Unsupported
              | Repeatable \<Rightarrow>
                  parse_loop (fst cur_frame, (Repeated, quantify c (snd item)) # items) below cs))
      else if c = CHR 0x5C then
        (case cs of
           [] \<Rightarrow> Inl RegexError
         | e # cs' \<Rightarrow>
             (case escape e of
                None \<Rightarrow> Inl Unsupported
              | Some cl \<Rightarrow> parse_loop (fst cur_frame, (Repeatable, Chr cl) # snd cur_frame) below cs'))
      else if c = CHR ''['' \<or> c = CHR ''{'' then Inl Unsupported
      else if c = CHR ''^'' then parse_loop (fst cur_frame, (Anchor, Bol) # snd cur_frame) below cs
      else if c = CHR ''$'' then parse_loop (fst cur_frame, (Anchor, Eol) # snd cur_frame) below cs
      else if c = CHR ''.'' then parse_loop (fst cur_frame, (Repeatable, Chr AnyChar) # snd cur_frame) below cs
      else parse_loop (fst cur_frame, (Repeatable, Chr (Literal c)) # snd cur_frame) below cs)"

definition re_compile_ignorecase :: regex_engine where
  "re_compile_ignorecase pat =
     (case parse_loop ([], []) [] pat of Inl e \<Rightarrow> Inl e | Inr r \<Rightarrow> Inr (search r))"

section \<open>Rule model and rule compilation (categorization.py)\<close>

record CategoryRule =
  name :: string
  priority :: int
  patterns :: "string list"
  is_regex_flags :: "bool list"

text \<open>
  The snapshot returned by \<^verbatim>\<open>get_categories_with_keywords()\<close>: a list of categories, each
  with its keywords.
\<close>

record keyword =
  kw_id :: int
  kw_pattern :: string
  kw_is_regex :: bool
  kw_enabled :: bool

record category =
  cat_id :: int
  cat_name :: string
  cat_priority :: int
  cat_keywords :: "keyword list"

text \<open>The loop of \<^verbatim>\<open>build_rules_from_storage\<close>; \<open>rules\<close> is the list built so far.\<close>

fun build_rules_loop :: "category list \<Rightarrow> CategoryRule list \<Rightarrow> CategoryRule list" where
  "build_rules_loop [] rules = rules"
| "build_rules_loop (cat # cats) rules =
     (if cat_name cat = ''Uncategorized'' then build_rules_loop cats rules
      else
        let enabled_keywords = filter kw_enabled (cat_keywords cat)
        in if enabled_keywords = [] then build_rules_loop cats rules
           else build_rules_loop cats
                  (rules @ [\<lparr>name = cat_name cat, priority = cat_priority cat,
                             patterns = map kw_pattern enabled_keywords,
                             is_regex_flags = map kw_is_regex enabled_keywords\<rparr>]))"

text \<open>
  \<^verbatim>\<open>rules.sort(key=lambda r: r.priority)\<close> is a stable sort, as \<^const>\<open>sort_key\<close> is. The
  snapshot read from the store is the argument.
\<close>

definition build_rules_from_storage :: "category list \<Rightarrow> CategoryRule list" where
  "build_rules_from_storage categories = sort_key priority (build_rules_loop categories [])"

section \<open>Classification (categorization.py)\<close>

text \<open>
  A frame is seen through the two columns the function reads: \<^verbatim>\<open>Details\<close>, a text per
  row, and \<^verbatim>\<open>Category\<close>, which may be absent from the frame and whose cells may be null
  (\<open>None\<close>).
\<close>

type_synonym row = "string \<times> string option"

datatype DataFrame = NoCategory "string list" | WithCategory "row list"

text \<open>\<^verbatim>\<open>if "Category" not in df.columns: df["Category"] = "Uncategorized"\<close>\<close>

fun with_category_column :: "DataFrame \<Rightarrow> row list" where
  "with_category_column (NoCategory ds) = map (\<lambda>d. (d, Some ''Uncategorized'')) ds"
| "with_category_column (WithCategory rows) = rows"

text \<open>
  \<^verbatim>\<open>series.str.contains(pat, case=False, regex=regex, na=False)\<close>. Without \<open>regex\<close>, pandas
  compares the upper-cased pattern with the upper-cased text.
\<close>

definition str_contains :: "regex_engine \<Rightarrow> string list \<Rightarrow> string \<Rightarrow> bool \<Rightarrow> error + bool list" where
  "str_contains re series pat regex =
     (if regex then (case re pat of Inl e \<Rightarrow> Inl e | Inr m \<Rightarrow> Inr (map m series))
      else Inr (map (\<lambda>x. str_in (upper pat) (upper x)) series))"

text \<open>The inner loop over \<^verbatim>\<open>zip(rule.patterns, rule.is_regex_flags)\<close>.\<close>

fun category_mask_loop ::
  "regex_engine \<Rightarrow> string list \<Rightarrow> (string \<times> bool) list \<Rightarrow> bool list \<Rightarrow> error + bool list" where
  "category_mask_loop re details_norm [] category_mask = Inr category_mask"
| "category_mask_loop re details_norm (pr # rest) category_mask =
     (if fst pr = [] then category_mask_loop re details_norm rest category_mask
      else
        case (if snd pr then str_contains re details_norm (fst pr) True
              else str_contains re details_norm (lower (fst pr)) False) of
          Inl e \<Rightarrow> Inl e
        | Inr m \<Rightarrow> category_mask_loop re details_norm rest (map2 (\<or>) category_mask m))"

text \<open>The outer loop over the rules; \<open>df\<close> is the frame as mutated so far.\<close>

fun rules_loop ::
  "regex_engine \<Rightarrow> string list \<Rightarrow> row list \<Rightarrow> CategoryRule list \<Rightarrow> error + row list" where
  "rules_loop re details_norm df [] = Inr df"
| "rules_loop re details_norm df (rule # rules) =
     (let uncategorized_mask = map (\<lambda>r. snd r = Some ''Uncategorized'') df
      in if \<not> list_ex id uncategorized_mask then Inr df
         else
           case category_mask_loop re details_norm
                  (zip (patterns rule) (is_regex_flags rule)) (map (\<lambda>r. False) df) of
             Inl e \<Rightarrow> Inl e
           | Inr category_mask \<Rightarrow>
               let final_mask = map2 (\<and>) uncategorized_mask category_mask
               in rules_loop re details_norm
                    (map2 (\<lambda>b r. if b then (fst r, Some (name rule)) else r) final_mask df)
                    rules)"

text \<open>
  The result is the returned frame, as its rows; \<open>Inl\<close> is an exception that leaves the
  function.
\<close>

definition apply_rules_vectorized ::
  "regex_engine \<Rightarrow> DataFrame \<Rightarrow> CategoryRule list \<Rightarrow> error + row list" where
  "apply_rules_vectorized re df rules =
     (let rows = with_category_column df;
          details_norm = map (\<lambda>r. lower (fst r)) rows
      in rules_loop re details_norm rows rules)"

subsection \<open>Specification-level notions for keyword extraction\<close>

text \<open>
  The words of a text: cut it at every whitespace character and drop the empty pieces.
  A numeric token is a non-empty digit string, optionally followed by one decimal point
  and another non-empty digit string.
\<close>

fun split_at_whitespace :: "string \<Rightarrow> string list" where
  "split_at_whitespace [] = [[]]"
| "split_at_whitespace (c # cs) =
     (if isspace c then [] # split_at_whitespace cs
      else (case split_at_whitespace cs of [] \<Rightarrow> [[c]] | t # ts \<Rightarrow> (c # t) # ts))"

definition words_of :: "string \<Rightarrow> string list" where
  "words_of s = filter (\<lambda>t. t \<noteq> []) (split_at_whitespace s)"

definition is_numeric :: "string \<Rightarrow> bool" where
  "is_numeric t = (\<exists>a b. a \<noteq> [] \<and> list_all isdigit a \<and>
      (t = a \<or> (b \<noteq> [] \<and> list_all isdigit b \<and> t = a @ CHR ''.'' # b)))"

definition keyword_candidates :: "string \<Rightarrow> string list" where
  "keyword_candidates s = filter (\<lambda>t. 3 \<le> length t \<and> \<not> is_numeric t) (words_of s)"


subsection \<open>Specification-level notions for classification\<close>

text \<open>
  A pattern with its regex flag hits a text when it is not empty and either, as a regex,
  it compiles and finds a match in the lower-cased text, or, as plain text, its
  lower-cased form occurs in the lower-cased text. A rule matches a text when one of its
  patterns hits it. The regexes of a rule compile when every non-empty pattern flagged
  as regex does.
\<close>

definition pattern_hit :: "regex_engine \<Rightarrow> string \<Rightarrow> string \<times> bool \<Rightarrow> bool" where
  "pattern_hit re d pr =
     (fst pr \<noteq> [] \<and>
      (if snd pr then (case re (fst pr) of Inl e \<Rightarrow> False | Inr m \<Rightarrow> m (lower d))
       else sublist (lower (fst pr)) (lower d)))"

definition rule_matches :: "regex_engine \<Rightarrow> CategoryRule \<Rightarrow> string \<Rightarrow> bool" where
  "rule_matches re rule d =
     list_ex (pattern_hit re d) (zip (patterns rule) (is_regex_flags rule))"

definition regex_fails :: "regex_engine \<Rightarrow> string \<times> bool \<Rightarrow> bool" where
  "regex_fails re pr = (fst pr \<noteq> [] \<and> snd pr \<and> isl (re (fst pr)))"

definition regexes_compile :: "regex_engine \<Rightarrow> CategoryRule \<Rightarrow> bool" where
  "regexes_compile re rule =
     (\<not> list_ex (regex_fails re) (zip (patterns rule) (is_regex_flags rule)))"

text \<open>
  First match wins: a row whose category is "Uncategorized" takes the name of the first
  rule of the list that matches its details, and keeps its category when there is none;
  any other row is left as it is.
\<close>

definition classify_row :: "regex_engine \<Rightarrow> CategoryRule list \<Rightarrow> row \<Rightarrow> row" where
  "classify_row re rules r =
     (if snd r = Some ''Uncategorized''
      then (case find (\<lambda>rule. rule_matches re rule (fst r)) rules of
              None \<Rightarrow> r
            | Some rule \<Rightarrow> (fst r, Some (name rule)))
      else r)"

text \<open>
  What the loop does with any rule list: a rule named "Uncategorized" that matches a
  row writes "Uncategorized" back, so the row stays open for the rules after it. A rule
  assigns a row only when it matches and has another name.
\<close>

definition assigns :: "regex_engine \<Rightarrow> CategoryRule \<Rightarrow> string \<Rightarrow> bool" where
  "assigns re rule d = (name rule \<noteq> ''Uncategorized'' \<and> rule_matches re rule d)"

definition run_row :: "regex_engine \<Rightarrow> CategoryRule list \<Rightarrow> row \<Rightarrow> row" where
  "run_row re rules r =
     (if snd r = Some ''Uncategorized''
      then (case find (\<lambda>rule. assigns re rule (fst r)) rules of
              None \<Rightarrow> r
            | Some rule \<Rightarrow> (fst r, Some (name rule)))
      else r)"

subsection \<open>Specification-level notions for rule compilation\<close>

text \<open>
  A category survives when it is not named "Uncategorized" and has an enabled keyword;
  its rule carries its name, its priority and its enabled keywords, in the order of the
  keyword list.
\<close>

definition enabled_keywords :: "category \<Rightarrow> keyword list" where
  "enabled_keywords cat = filter kw_enabled (cat_keywords cat)"

definition survives :: "category \<Rightarrow> bool" where
  "survives cat = (cat_name cat \<noteq> ''Uncategorized'' \<and> enabled_keywords cat \<noteq> [])"

definition rule_of_category :: "category \<Rightarrow> CategoryRule" where
  "rule_of_category cat =
     \<lparr>name = cat_name cat, priority = cat_priority cat,
      patterns = map kw_pattern (enabled_keywords cat),
      is_regex_flags = map kw_is_regex (enabled_keywords cat)\<rparr>"

section \<open>Storage (storage.py)\<close>

text \<open>
  The SQLite database is modelled by its two tables, each a list of rows, and by the
  counter that \<^verbatim>\<open>AUTOINCREMENT\<close> keeps for the keywords table (the largest id ever given
  to a keyword). The column \<^verbatim>\<open>id\<close> is the primary key of each table and \<^verbatim>\<open>name\<close> is
  unique in \<^verbatim>\<open>categories\<close>; foreign keys are not enforced by the connection.
\<close>

record category_row =
  cr_id :: int
  cr_name :: string
  cr_priority :: int

record keyword_row =
  kr_id :: int
  kr_category_id :: int
  kr_pattern :: string
  kr_is_regex :: bool
  kr_enabled :: bool

record database =
  categories_table :: "category_row list"
  keywords_table :: "keyword_row list"
  keywords_seq :: int

text \<open>
  The id of the next inserted keyword: one more than the largest id in the table or
  ever given.
\<close>

definition next_keyword_id :: "database \<Rightarrow> int" where
  "next_keyword_id db = fold max (map kr_id (keywords_table db)) (keywords_seq db) + 1"

text \<open>
  \<^verbatim>\<open>add_keyword(category_id, pattern, is_regex)\<close>: the pattern is stripped; an empty one
  is not stored; the row is inserted enabled.
\<close>

definition add_keyword :: "database \<Rightarrow> int \<Rightarrow> string \<Rightarrow> bool \<Rightarrow> database" where
  "add_keyword db category_id pattern is_regex =
     (let cleaned = strip pattern
      in if cleaned = [] then db
         else db\<lparr>keywords_table := keywords_table db @
                     [\<lparr>kr_id = next_keyword_id db, kr_category_id = category_id,
                       kr_pattern = cleaned, kr_is_regex = is_regex, kr_enabled = True\<rparr>],
                   keywords_seq := next_keyword_id db\<rparr>)"

text \<open>
  \<^verbatim>\<open>get_category_id_by_name(name)\<close>: \<^verbatim>\<open>SELECT id FROM categories WHERE name = ?\<close> on the
  stripped name, first row.
\<close>

definition get_category_id_by_name :: "database \<Rightarrow> string \<Rightarrow> int option" where
  "get_category_id_by_name db nm =
     (let cleaned = strip nm
      in if cleaned = [] then None
         else (case find (\<lambda>row. cr_name row = cleaned) (categories_table db) of
                 None \<Rightarrow> None
               | Some row \<Rightarrow> Some (cr_id row)))"



section \<open>Learning from edits (app.py)\<close>

text \<open>
  The handler of the button "Aplicar cambios y aprender nuevas keywords". A row of
  \<open>merged\<close> holds the details, the category shown (null is \<open>None\<close>) and the category chosen
  in the editor. The body of the loop over the changed rows is \<open>learn_row\<close>.
\<close>

type_synonym edit = "string \<times> string option \<times> string"

definition learn_row :: "database \<Rightarrow> string \<Rightarrow> string \<Rightarrow> database" where
  "learn_row db details new_cat_name =
     (case extract_keyword_from_details details of
        None \<Rightarrow> db
      | Some keyword \<Rightarrow>
          if keyword = [] then db
          else (case get_category_id_by_name db new_cat_name of
                  None \<Rightarrow> db
                | Some category_id \<Rightarrow> add_keyword db category_id keyword False))"

fun learn_loop :: "database \<Rightarrow> edit list \<Rightarrow> database" where
  "learn_loop db [] = db"
| "learn_loop db (row # changed) = learn_loop (learn_row db (fst row) (snd (snd row))) changed"

definition apply_changes :: "database \<Rightarrow> edit list \<Rightarrow> database" where
  "apply_changes db merged =
     (let changed = filter (\<lambda>row. fst (snd row) \<noteq> Some (snd (snd row))) merged
      in if changed = [] then db else learn_loop db changed)"

section \<open>Fuzzy matching (categorization.py)\<close>

text \<open>\<^verbatim>\<open>normalize_text\<close> (utils.py): \<^verbatim>\<open>str(text).strip().lower()\<close>.\<close>

definition normalize_text :: "string \<Rightarrow> string" where
  "normalize_text text = lower (strip text)"

text \<open>
  The rapidfuzz library is not code of this program. Its scorer
  \<^verbatim>\<open>fuzz.token_sort_ratio\<close> is a parameter \<open>scorer\<close>, and whether the import succeeded is
  the parameter \<open>has_rapidfuzz\<close>. \<^verbatim>\<open>process.extractOne(text, choices, scorer=scorer)\<close> scans
  the choices and keeps the best one so far, replacing it only by a choice of strictly
  greater score: \<open>extractOne\<close> is that scan, started at the first choice.
\<close>

fun extractOne :: "(string \<Rightarrow> 's::linorder) \<Rightarrow> string \<Rightarrow> string list \<Rightarrow> string" where
  "extractOne score best [] = best"
| "extractOne score best (c # cs) =
     (if score best < score c then extractOne score c cs else extractOne score best cs)"

definition fuzzy_categorize_single_details ::
  "bool \<Rightarrow> (string \<Rightarrow> string \<Rightarrow> 's::linordered_idom) \<Rightarrow> string \<Rightarrow> string list \<Rightarrow> int \<Rightarrow> string option" where
  "fuzzy_categorize_single_details has_rapidfuzz scorer details candidate_categories threshold =
     (if \<not> has_rapidfuzz then None
      else
        let text = normalize_text details
        in if text = [] \<or> candidate_categories = [] then None
           else
             let best_match = extractOne (scorer text) (hd candidate_categories) (tl candidate_categories);
                 score = scorer text best_match
             in if of_int threshold \<le> score then Some best_match else None)"

text \<open>The call without the third argument: \<^verbatim>\<open>threshold: int = 80\<close>.\<close>

definition fuzzy_categorize_single_details_default ::
  "bool \<Rightarrow> (string \<Rightarrow> string \<Rightarrow> 's::linordered_idom) \<Rightarrow> string \<Rightarrow> string list \<Rightarrow> string option" where
  "fuzzy_categorize_single_details_default has_rapidfuzz scorer details candidate_categories =
     fuzzy_categorize_single_details has_rapidfuzz scorer details candidate_categories 80"

section \<open>Properties of keyword extraction\<close>

lemma split_at_whitespace_nonempty: "split_at_whitespace s \<noteq> []"
  by (induction s) (auto split: list.splits)

lemma words_of_Cons_space: "isspace c \<Longrightarrow> words_of (c # cs) = words_of cs"
  by (simp add: words_of_def)

lemma words_of_dropWhile: "words_of (dropWhile isspace s) = words_of s"
  by (induction s) (auto simp: words_of_Cons_space)

lemma re_split_ws_words:
  "filter (\<lambda>t. t \<noteq> []) (re_split_ws cur s) =
   filter (\<lambda>t. t \<noteq> []) (case split_at_whitespace s of [] \<Rightarrow> [rev cur] | t # ts \<Rightarrow> (rev cur @ t) # ts)"
proof (induction cur s rule: re_split_ws.induct)
  case (1 cur)
  show ?case by simp
next
  case (2 cur c cs)
  show ?case
  proof (cases "isspace c")
    case True
    have "filter (\<lambda>t. t \<noteq> []) (re_split_ws [] (dropWhile isspace cs)) = words_of (dropWhile isspace cs)"
      using 2(1)[OF True] split_at_whitespace_nonempty[of "dropWhile isspace cs"]
      by (auto simp: words_of_def split: list.splits)
    then show ?thesis using True by (simp add: words_of_dropWhile) (simp add: words_of_def)
  next
    case False
    then show ?thesis using 2(2)[OF False] split_at_whitespace_nonempty[of cs]
      by (auto split: list.splits)
  qed
qed

lemma split_at_whitespace_append_spaces:
  "list_all isspace ws \<Longrightarrow>
   split_at_whitespace (xs @ ws) = split_at_whitespace xs @ replicate (length ws) []"
proof (induction xs)
  case Nil
  then show ?case by (induction ws) auto
next
  case (Cons x xs)
  then show ?case using split_at_whitespace_nonempty[of xs]
    by (auto split: list.splits)
qed

lemma words_of_append_spaces: "list_all isspace ws \<Longrightarrow> words_of (xs @ ws) = words_of xs"
  by (simp add: words_of_def split_at_whitespace_append_spaces)

lemma words_of_strip: "words_of (strip s) = words_of s"
proof -
  let ?t = "dropWhile isspace s"
  have "?t = rev (dropWhile isspace (rev ?t)) @ rev (takeWhile isspace (rev ?t))"
    by (metis rev_append rev_rev_ident takeWhile_dropWhile_id)
  moreover have "list_all isspace (rev (takeWhile isspace (rev ?t)))"
    by (simp add: list_all_iff) (meson set_takeWhileD)
  ultimately have "words_of ?t = words_of (rev (dropWhile isspace (rev ?t)))"
    by (metis words_of_append_spaces)
  then show ?thesis by (simp add: strip_def words_of_dropWhile)
qed

lemma tokens_words: "filter (\<lambda>t. t \<noteq> []) (re_split_ws [] (strip s)) = words_of s"
  using re_split_ws_words[of "[]" "strip s"] split_at_whitespace_nonempty[of "strip s"] words_of_strip[of s]
  by (auto simp: words_of_def split: list.splits)

lemma not_digit_dot: "\<not> isdigit CHR ''.''"
  by (simp add: isdigit_def)

lemma fullmatch_number_numeric: "fullmatch_number t = is_numeric t"
proof
  assume "fullmatch_number t"
  then show "is_numeric t"
    unfolding fullmatch_number_def is_numeric_def Let_def
    apply (cases "dropWhile isdigit t")
    subgoal
      apply (rule exI[of _ t])
      apply (auto simp: list_all_iff dropWhile_eq_Nil_conv)
      done
    subgoal for c frac
      apply (rule exI[of _ "takeWhile isdigit t"])
      apply (rule exI[of _ frac])
      apply (auto simp: list_all_iff dest: set_takeWhileD)
      apply (metis takeWhile_dropWhile_id)
      done
    done
next
  assume "is_numeric t"
  then obtain a b where ab: "a \<noteq> []" "list_all isdigit a"
     "t = a \<or> (b \<noteq> [] \<and> list_all isdigit b \<and> t = a @ CHR ''.'' # b)"
    unfolding is_numeric_def by blast
  from ab(3) show "fullmatch_number t"
  proof
    assume "t = a"
    then show ?thesis using ab(1,2)
      by (simp add: fullmatch_number_def list_all_iff takeWhile_eq_all_conv[THEN iffD2] dropWhile_eq_Nil_conv[THEN iffD2])
  next
    assume h: "b \<noteq> [] \<and> list_all isdigit b \<and> t = a @ CHR ''.'' # b"
    have "takeWhile isdigit t = a" using h ab(2) not_digit_dot
      by (simp add: list_all_iff takeWhile_append2)
    moreover have "dropWhile isdigit t = CHR ''.'' # b" using h ab(2) not_digit_dot
      by (simp add: list_all_iff dropWhile_append2)
    ultimately show ?thesis using ab(1) h
      by (simp add: fullmatch_number_def)
  qed
qed

lemma max_by_len_first_longest:
  "(max_by_len best ts = best \<and> (\<forall>u\<in>set ts. length u \<le> length best)) \<or>
   (\<exists>pre post. ts = pre @ max_by_len best ts # post \<and>
      length best < length (max_by_len best ts) \<and>
      (\<forall>u\<in>set pre. length u < length (max_by_len best ts)) \<and>
      (\<forall>u\<in>set post. length u \<le> length (max_by_len best ts)))"
proof (induction ts arbitrary: best)
  case Nil
  show ?case by simp
next
  case (Cons t ts)
  show ?case
  proof (cases "length best < length t")
    case True
    from Cons[of t] show ?thesis
    proof
      assume h: "max_by_len t ts = t \<and> (\<forall>u\<in>set ts. length u \<le> length t)"
      have "t # ts = [] @ max_by_len best (t # ts) # ts" using True h by simp
      then show ?thesis using True h by (metis empty_iff list.set(1) max_by_len.simps(2))
    next
      assume "\<exists>pre post. ts = pre @ max_by_len t ts # post \<and>
        length t < length (max_by_len t ts) \<and>
        (\<forall>u\<in>set pre. length u < length (max_by_len t ts)) \<and>
        (\<forall>u\<in>set post. length u \<le> length (max_by_len t ts))"
      then obtain pre post where h: "ts = pre @ max_by_len t ts # post"
        "length t < length (max_by_len t ts)"
        "\<forall>u\<in>set pre. length u < length (max_by_len t ts)"
        "\<forall>u\<in>set post. length u \<le> length (max_by_len t ts)" by blast
      have "t # ts = (t # pre) @ max_by_len best (t # ts) # post" using True h(1) by simp
      moreover have "\<forall>u\<in>set (t # pre). length u < length (max_by_len best (t # ts))"
        using True h(2,3) by simp
      moreover have "length best < length (max_by_len best (t # ts))" using True h(2) by simp
      moreover have "\<forall>u\<in>set post. length u \<le> length (max_by_len best (t # ts))" using True h(4) by simp
      ultimately show ?thesis by blast
    qed
  next
    case False
    from Cons[of best] show ?thesis
    proof
      assume "max_by_len best ts = best \<and> (\<forall>u\<in>set ts. length u \<le> length best)"
      then show ?thesis using False by simp
    next
      assume "\<exists>pre post. ts = pre @ max_by_len best ts # post \<and>
        length best < length (max_by_len best ts) \<and>
        (\<forall>u\<in>set pre. length u < length (max_by_len best ts)) \<and>
        (\<forall>u\<in>set post. length u \<le> length (max_by_len best ts))"
      then obtain pre post where h: "ts = pre @ max_by_len best ts # post"
        "length best < length (max_by_len best ts)"
        "\<forall>u\<in>set pre. length u < length (max_by_len best ts)"
        "\<forall>u\<in>set post. length u \<le> length (max_by_len best ts)" by blast
      have "t # ts = (t # pre) @ max_by_len best (t # ts) # post" using False h(1) by simp
      moreover have "\<forall>u\<in>set (t # pre). length u < length (max_by_len best (t # ts))"
        using False h(2,3) by simp
      moreover have "length best < length (max_by_len best (t # ts))" using False h(2) by simp
      moreover have "\<forall>u\<in>set post. length u \<le> length (max_by_len best (t # ts))" using False h(4) by simp
      ultimately show ?thesis by blast
    qed
  qed
qed


lemma is_numeric_code [code]: "is_numeric t = fullmatch_number t"
  by (simp add: fullmatch_number_numeric)

lemma candidates_keyword_candidates:
  "filter (\<lambda>t. 3 \<le> length t \<and> \<not> fullmatch_number t) (re_split_ws [] (strip s)) = keyword_candidates s"
proof -
  have "filter (\<lambda>t. 3 \<le> length t \<and> \<not> fullmatch_number t) (re_split_ws [] (strip s)) =
        filter (\<lambda>t. 3 \<le> length t \<and> \<not> fullmatch_number t)
          (filter (\<lambda>t. t \<noteq> []) (re_split_ws [] (strip s)))"
    by (auto intro: filter_cong)
  then show ?thesis
    by (simp only: tokens_words keyword_candidates_def fullmatch_number_numeric)
qed

text \<open>
  Claim C5. The candidates of a text are its whitespace-separated words of length at
  least 3 that are not numeric. Keyword extraction returns nothing exactly when there
  is no candidate; otherwise it returns, in upper case, a candidate that is strictly
  longer than every candidate before it and at least as long as every candidate after
  it. On "COMPRA LULU HYPERMARKET 45.67" the keyword is "HYPERMARKET".
\<close>

theorem extract_keyword_longest_candidate:
  "(case extract_keyword_from_details d of
      None \<Rightarrow> keyword_candidates d = []
    | Some k \<Rightarrow> (\<exists>pre t post. keyword_candidates d = pre @ t # post \<and> k = upper t \<and>
         (\<forall>u\<in>set pre. length u < length t) \<and> (\<forall>u\<in>set post. length u \<le> length t)))
   \<and> extract_keyword_from_details ''COMPRA LULU HYPERMARKET 45.67'' = Some ''HYPERMARKET''"
proof
  show "extract_keyword_from_details ''COMPRA LULU HYPERMARKET 45.67'' = Some ''HYPERMARKET''"
    by code_simp
  show "case extract_keyword_from_details d of
      None \<Rightarrow> keyword_candidates d = []
    | Some k \<Rightarrow> (\<exists>pre t post. keyword_candidates d = pre @ t # post \<and> k = upper t \<and>
         (\<forall>u\<in>set pre. length u < length t) \<and> (\<forall>u\<in>set post. length u \<le> length t))"
  proof (cases "d = []")
    case True
    then show ?thesis
      by (simp add: extract_keyword_from_details_def keyword_candidates_def words_of_def)
  next
    case False
    show ?thesis
    proof (cases "keyword_candidates d")
      case Nil
      then show ?thesis using False
        by (simp add: extract_keyword_from_details_def candidates_keyword_candidates)
    next
      case (Cons c cs)
      let ?r = "max_by_len c cs"
      have res: "extract_keyword_from_details d = Some (upper ?r)"
        using False Cons by (simp add: extract_keyword_from_details_def candidates_keyword_candidates)
      from max_by_len_first_longest[of c cs]
      have "\<exists>pre post. c # cs = pre @ ?r # post \<and>
         (\<forall>u\<in>set pre. length u < length ?r) \<and> (\<forall>u\<in>set post. length u \<le> length ?r)"
      proof
        assume h: "?r = c \<and> (\<forall>u\<in>set cs. length u \<le> length c)"
        then have "c # cs = [] @ ?r # cs" by simp
        then show ?thesis using h by (metis empty_iff list.set(1))
      next
        assume "\<exists>pre post. cs = pre @ ?r # post \<and> length c < length ?r \<and>
          (\<forall>u\<in>set pre. length u < length ?r) \<and> (\<forall>u\<in>set post. length u \<le> length ?r)"
        then obtain pre post where h: "cs = pre @ ?r # post" "length c < length ?r"
          "\<forall>u\<in>set pre. length u < length ?r" "\<forall>u\<in>set post. length u \<le> length ?r"
          by blast
        have "c # cs = (c # pre) @ ?r # post" using h(1) by simp
        moreover have "\<forall>u\<in>set (c # pre). length u < length ?r" using h(2,3) by simp
        ultimately show ?thesis using h(4) by blast
      qed
      then show ?thesis using res Cons by auto
    qed
  qed
qed

theorem extract_keyword_longest_candidate_witness:
  "keyword_candidates ''COMPRA LULU HYPERMARKET 45.67'' = [''COMPRA'', ''LULU'', ''HYPERMARKET''] \<and>
   (\<exists>pre t post. keyword_candidates ''COMPRA LULU HYPERMARKET 45.67'' = pre @ t # post \<and>
      ''HYPERMARKET'' = upper t \<and>
      (\<forall>u\<in>set pre. length u < length t) \<and> (\<forall>u\<in>set post. length u \<le> length t))"
proof
  show "keyword_candidates ''COMPRA LULU HYPERMARKET 45.67'' = [''COMPRA'', ''LULU'', ''HYPERMARKET'']"
    by code_simp
  show "\<exists>pre t post. keyword_candidates ''COMPRA LULU HYPERMARKET 45.67'' = pre @ t # post \<and>
      ''HYPERMARKET'' = upper t \<and>
      (\<forall>u\<in>set pre. length u < length t) \<and> (\<forall>u\<in>set post. length u \<le> length t)"
  proof -
    have e: "extract_keyword_from_details ''COMPRA LULU HYPERMARKET 45.67'' = Some ''HYPERMARKET''"
      by code_simp
    from extract_keyword_longest_candidate [of "''COMPRA LULU HYPERMARKET 45.67''"]
    have "case extract_keyword_from_details ''COMPRA LULU HYPERMARKET 45.67'' of
        None \<Rightarrow> keyword_candidates ''COMPRA LULU HYPERMARKET 45.67'' = []
      | Some k \<Rightarrow> (\<exists>pre t post. keyword_candidates ''COMPRA LULU HYPERMARKET 45.67'' = pre @ t # post \<and>
           k = upper t \<and>
           (\<forall>u\<in>set pre. length u < length t) \<and> (\<forall>u\<in>set post. length u \<le> length t))"
      by (rule conjunct1)
    then show ?thesis by (simp only: e option.case)
  qed
qed

section \<open>Case folding and containment\<close>

lemma of_char_char_of_small: "n < 256 \<Longrightarrow> (of_char (char_of n) :: nat) = n"
  by simp

lemma of_char_lower_char:
  "(of_char (lower_char c) :: nat) =
     (if 65 \<le> (of_char c :: nat) \<and> (of_char c :: nat) \<le> 90 then of_char c + 32 else of_char c)"
  by (simp add: lower_char_def Let_def)

lemma of_char_upper_char:
  "(of_char (upper_char c) :: nat) =
     (if 97 \<le> (of_char c :: nat) \<and> (of_char c :: nat) \<le> 122 then of_char c - 32 else of_char c)"
proof (cases "97 \<le> (of_char c :: nat) \<and> (of_char c :: nat) \<le> 122")
  case True
  then have "(of_char c :: nat) - 32 < 256" by arith
  then have "(of_char (char_of ((of_char c :: nat) - 32)) :: nat) = of_char c - 32"
    by (rule of_char_char_of_small)
  then show ?thesis using True by (simp add: upper_char_def Let_def)
next
  case False
  then show ?thesis by (auto simp: upper_char_def Let_def)
qed

lemma upper_lower_char_eq:
  "(upper_char (lower_char a) = upper_char (lower_char b)) = (lower_char a = lower_char b)"
proof -
  have "((of_char (upper_char (lower_char a)) :: nat) = of_char (upper_char (lower_char b))) =
        ((of_char (lower_char a) :: nat) = of_char (lower_char b))"
    unfolding of_char_upper_char of_char_lower_char by (simp del: of_char_eq_iff) arith
  then show ?thesis by simp
qed

lemma str_in_sublist: "str_in p d = sublist p d"
  by (induction d) (auto simp: sublist_Cons_right)

lemma map_eq_map_rel:
  "(map f xs = map f ys) = list_all2 (\<lambda>a b. f a = f b) xs ys"
  by (induction xs arbitrary: ys) (auto simp: list_all2_Cons1 map_eq_Cons_conv)

lemma sublist_map_iff:
  "sublist (map f p) (map f d) = (\<exists>d1 d2 d3. d = d1 @ d2 @ d3 \<and> map f d2 = map f p)"
proof
  assume "sublist (map f p) (map f d)"
  then obtain ps ss where "map f d = ps @ (map f p @ ss)" by (auto simp: sublist_def)
  then have "\<exists>us vs. d = us @ vs \<and> ps = map f us \<and> map f p @ ss = map f vs"
    by (simp only: map_eq_append_conv)
  then obtain d1 d23 where a: "d = d1 @ d23" "map f d23 = map f p @ ss"
    by metis
  from a(2) have "\<exists>us vs. d23 = us @ vs \<and> map f p = map f us \<and> ss = map f vs"
    by (simp only: map_eq_append_conv)
  then obtain d2 d3 where b: "d23 = d2 @ d3" "map f d2 = map f p"
    by metis
  from a(1) b show "\<exists>d1 d2 d3. d = d1 @ d2 @ d3 \<and> map f d2 = map f p" by blast
next
  assume "\<exists>d1 d2 d3. d = d1 @ d2 @ d3 \<and> map f d2 = map f p"
  then obtain d1 d2 d3 where "d = d1 @ d2 @ d3" "map f d2 = map f p" by blast
  then have "map f d = map f d1 @ map f p @ map f d3" by simp
  then show "sublist (map f p) (map f d)" unfolding sublist_def by blast
qed

lemma sublist_map_cong:
  assumes "\<And>a b. (f a = f b) = (g a = g b)"
  shows "sublist (map f p) (map f d) = sublist (map g p) (map g d)"
  unfolding sublist_map_iff map_eq_map_rel using assms by simp

lemma str_in_upper_lower:
  "str_in (upper (lower p)) (upper (lower d)) = sublist (lower p) (lower d)"
proof -
  have "sublist (map (upper_char \<circ> lower_char) p) (map (upper_char \<circ> lower_char) d) =
        sublist (map lower_char p) (map lower_char d)"
    by (rule sublist_map_cong) (simp add: upper_lower_char_eq)
  then show ?thesis by (simp add: str_in_sublist upper_def lower_def)
qed

section \<open>Properties of the classification loops\<close>

lemma map2_or_map: "map2 (\<or>) (map h rows) (map g rows) = map (\<lambda>r. h r \<or> g r) rows"
  by (induction rows) auto

lemma map2_and_map: "map2 (\<and>) (map h rows) (map g rows) = map (\<lambda>r. h r \<and> g r) rows"
  by (induction rows) auto

lemma map2_assign_map:
  "map2 (\<lambda>b r. if b then f r else r) (map h rows) rows = map (\<lambda>r. if h r then f r else r) rows"
  by (induction rows) auto

lemma hit_regex:
  "fst pr \<noteq> [] \<Longrightarrow> snd pr \<Longrightarrow> re (fst pr) = Inr m \<Longrightarrow> pattern_hit re d pr = m (lower d)"
  by (simp add: pattern_hit_def)

lemma hit_plain:
  "fst pr \<noteq> [] \<Longrightarrow> \<not> snd pr \<Longrightarrow> pattern_hit re d pr = sublist (lower (fst pr)) (lower d)"
  by (simp add: pattern_hit_def)

lemma category_mask_loop_compiles:
  assumes "\<not> list_ex (regex_fails re) prs"
  shows "category_mask_loop re (map (\<lambda>r. lower (fst r)) rows) prs (map h rows) =
         Inr (map (\<lambda>r. h r \<or> list_ex (pattern_hit re (fst r)) prs) rows)"
  using assms
proof (induction prs arbitrary: h)
  case Nil
  show ?case by simp
next
  case (Cons pr rest)
  then have rest: "\<not> list_ex (regex_fails re) rest" and pr: "\<not> regex_fails re pr" by simp_all
  show ?case
  proof (cases "fst pr = []")
    case True
    then show ?thesis using Cons.IH[OF rest, of h] by (simp add: pattern_hit_def)
  next
    case False
    show ?thesis
    proof (cases "snd pr")
      case True
      with False pr obtain m where m: "re (fst pr) = Inr m"
        by (cases "re (fst pr)") (auto simp: regex_fails_def)
      have "category_mask_loop re (map (\<lambda>r. lower (fst r)) rows) (pr # rest) (map h rows) =
            category_mask_loop re (map (\<lambda>r. lower (fst r)) rows) rest
              (map (\<lambda>r. h r \<or> m (lower (fst r))) rows)"
        using False True m map2_or_map[of h rows "\<lambda>r. m (lower (fst r))"]
        by (simp add: str_contains_def comp_def)
      also have "\<dots> = Inr (map (\<lambda>r. (h r \<or> m (lower (fst r))) \<or>
                     list_ex (pattern_hit re (fst r)) rest) rows)"
        by (rule Cons.IH[OF rest])
      finally show ?thesis
        using hit_regex[where pr=pr and re=re and m=m, OF False True m] by (simp add: disj_assoc)
    next
      case nonregex: False
      have "category_mask_loop re (map (\<lambda>r. lower (fst r)) rows) (pr # rest) (map h rows) =
            category_mask_loop re (map (\<lambda>r. lower (fst r)) rows) rest
              (map (\<lambda>r. h r \<or> sublist (lower (fst pr)) (lower (fst r))) rows)"
        using False nonregex
          map2_or_map[of h rows "\<lambda>r. str_in (upper (lower (fst pr))) (upper (lower (fst r)))"]
        by (simp add: str_contains_def comp_def str_in_upper_lower)
      also have "\<dots> = Inr (map (\<lambda>r. (h r \<or> sublist (lower (fst pr)) (lower (fst r))) \<or>
                     list_ex (pattern_hit re (fst r)) rest) rows)"
        by (rule Cons.IH[OF rest])
      finally show ?thesis
        using hit_plain[where pr=pr and re=re, OF False nonregex] by (simp add: disj_assoc)
    qed
  qed
qed

lemma category_mask_loop_fails:
  "list_ex (regex_fails re) prs \<Longrightarrow> isl (category_mask_loop re details_norm prs cm)"
proof (induction prs arbitrary: cm)
  case Nil
  then show ?case by simp
next
  case (Cons pr rest)
  show ?case
  proof (cases "regex_fails re pr")
    case True
    then obtain e where "re (fst pr) = Inl e" "fst pr \<noteq> []" "snd pr"
      by (cases "re (fst pr)") (auto simp: regex_fails_def)
    then show ?thesis by (simp add: str_contains_def)
  next
    case False
    with Cons.prems have "list_ex (regex_fails re) rest" by simp
    from Cons.IH[OF this] show ?thesis
      by (auto simp: str_contains_def split: sum.splits)
  qed
qed

lemma category_mask_loop_empty_patterns:
  "\<forall>pr\<in>set prs. fst pr = [] \<Longrightarrow> category_mask_loop re details_norm prs cm = Inr cm"
  by (induction prs) auto

lemma rules_loop_none_uncategorized:
  "\<not> list_ex (\<lambda>r. snd r = Some ''Uncategorized'') rows \<Longrightarrow>
   rules_loop re details_norm rows rules = Inr rows"
  by (cases rules) (auto simp: list_ex_iff)

lemma rules_loop_step:
  assumes "list_ex (\<lambda>r. snd r = Some ''Uncategorized'') rows"
    and "regexes_compile re rule"
  shows "rules_loop re (map (\<lambda>r. lower (fst r)) rows) rows (rule # rules) =
         rules_loop re (map (\<lambda>r. lower (fst r)) rows)
           (map (\<lambda>r. if snd r = Some ''Uncategorized'' \<and> rule_matches re rule (fst r)
                      then (fst r, Some (name rule)) else r) rows) rules"
proof -
  have mask: "category_mask_loop re (map (\<lambda>r. lower (fst r)) rows)
        (zip (patterns rule) (is_regex_flags rule)) (map (\<lambda>r. False) rows) =
      Inr (map (\<lambda>r. rule_matches re rule (fst r)) rows)"
    using category_mask_loop_compiles[of re "zip (patterns rule) (is_regex_flags rule)" rows "\<lambda>r. False"]
      assms(2) by (simp add: regexes_compile_def rule_matches_def)
  have any: "list_ex id (map (\<lambda>r. snd r = Some ''Uncategorized'') rows)"
    using assms(1) by (simp add: list_ex_iff)
  show ?thesis
    using any mask
      map2_and_map[of "\<lambda>r. snd r = Some ''Uncategorized''" rows "\<lambda>r. rule_matches re rule (fst r)"]
      map2_assign_map[of "\<lambda>r. (fst r, Some (name rule))"
        "\<lambda>r. snd r = Some ''Uncategorized'' \<and> rule_matches re rule (fst r)" rows]
    by (simp add: Let_def)
qed

lemma run_row_Nil: "run_row re [] r = r"
  by (simp add: run_row_def)

lemma run_row_other: "snd r \<noteq> Some ''Uncategorized'' \<Longrightarrow> run_row re rules r = r"
  by (simp add: run_row_def)

lemma run_row_Cons:
  "run_row re rules
     (if snd r = Some ''Uncategorized'' \<and> rule_matches re rule (fst r)
      then (fst r, Some (name rule)) else r) = run_row re (rule # rules) r"
  by (cases r) (auto simp: run_row_def assigns_def split: option.splits)

lemma rules_loop_run_row:
  assumes "\<forall>rule\<in>set rules. regexes_compile re rule"
  shows "rules_loop re (map (\<lambda>r. lower (fst r)) rows) rows rules = Inr (map (run_row re rules) rows)"
  using assms
proof (induction rules arbitrary: rows)
  case Nil
  show ?case by (simp add: run_row_Nil)
next
  case (Cons rule rules)
  show ?case
  proof (cases "list_ex (\<lambda>r. snd r = Some ''Uncategorized'') rows")
    case False
    then have same: "map (run_row re (rule # rules)) rows = rows"
      by (simp add: list_ex_iff run_row_other map_idI)
    have "rules_loop re (map (\<lambda>r. lower (fst r)) rows) rows (rule # rules) = Inr rows"
      using False by (rule rules_loop_none_uncategorized)
    then show ?thesis by (simp only: same)
  next
    case True
    let ?step = "\<lambda>r. if snd r = Some ''Uncategorized'' \<and> rule_matches re rule (fst r)
                      then (fst r, Some (name rule)) else r"
    have details: "map (\<lambda>r. lower (fst r)) (map ?step rows) = map (\<lambda>r. lower (fst r)) rows"
      by (induction rows) auto
    have "rules_loop re (map (\<lambda>r. lower (fst r)) rows) rows (rule # rules) =
          rules_loop re (map (\<lambda>r. lower (fst r)) (map ?step rows)) (map ?step rows) rules"
      using rules_loop_step[OF True, of re rule rules] Cons.prems by (simp only: details) simp
    also have "\<dots> = Inr (map (run_row re rules) (map ?step rows))"
      using Cons.IH[of "map ?step rows"] Cons.prems by simp
    also have "map (run_row re rules) (map ?step rows) = map (run_row re (rule # rules)) rows"
      using run_row_Cons[of re rules _ rule] by (simp add: comp_def)
    finally show ?thesis .
  qed
qed

lemma run_row_classify_row:
  "\<forall>rule\<in>set rules. name rule \<noteq> ''Uncategorized'' \<Longrightarrow> run_row re rules r = classify_row re rules r"
proof -
  assume a: "\<forall>rule\<in>set rules. name rule \<noteq> ''Uncategorized''"
  have "find (\<lambda>rule. assigns re rule (fst r)) rules = find (\<lambda>rule. rule_matches re rule (fst r)) rules"
    using a by (induction rules) (auto simp: assigns_def)
  then show ?thesis by (simp add: run_row_def classify_row_def)
qed

lemma rules_loop_append:
  "rules_loop re details_norm rows (pre @ post) =
     (case rules_loop re details_norm rows pre of
        Inl e \<Rightarrow> Inl e
      | Inr rows' \<Rightarrow> rules_loop re details_norm rows' post)"
proof (induction pre arbitrary: rows)
  case Nil
  show ?case by simp
next
  case (Cons rule pre)
  show ?case
  proof (cases "list_ex (\<lambda>r. snd r = Some ''Uncategorized'') rows")
    case False
    have a: "rules_loop re details_norm rows (rule # pre @ post) = Inr rows"
      using False by (rule rules_loop_none_uncategorized)
    have b: "rules_loop re details_norm rows (rule # pre) = Inr rows"
      using False by (rule rules_loop_none_uncategorized)
    have c: "rules_loop re details_norm rows post = Inr rows"
      using False by (rule rules_loop_none_uncategorized)
    show ?thesis by (simp only: append_Cons a b c sum.case)
  next
    case True
    then have "list_ex id (map (\<lambda>r. snd r = Some ''Uncategorized'') rows)"
      by (simp add: list_ex_iff)
    then show ?thesis using Cons.IH
      by (simp add: Let_def split: sum.splits)
  qed
qed

lemma rules_loop_skip_empty:
  assumes "\<forall>p\<in>set (patterns rule). p = []"
  shows "rules_loop re details_norm rows (rule # rules) = rules_loop re details_norm rows rules"
proof (cases "list_ex (\<lambda>r. snd r = Some ''Uncategorized'') rows")
  case False
  have a: "rules_loop re details_norm rows (rule # rules) = Inr rows"
    using False by (rule rules_loop_none_uncategorized)
  have b: "rules_loop re details_norm rows rules = Inr rows"
    using False by (rule rules_loop_none_uncategorized)
  show ?thesis by (simp only: a b)
next
  case True
  then have any: "list_ex id (map (\<lambda>r. snd r = Some ''Uncategorized'') rows)"
    by (simp add: list_ex_iff)
  have "\<forall>pr\<in>set (zip (patterns rule) (is_regex_flags rule)). fst pr = []"
    using assms by (auto dest: set_zip_leftD)
  then have cm: "category_mask_loop re details_norm (zip (patterns rule) (is_regex_flags rule))
      (map (\<lambda>r. False) rows) = Inr (map (\<lambda>r. False) rows)"
    by (rule category_mask_loop_empty_patterns)
  have keep: "map2 (\<lambda>b r. if b then (fst r, Some (name rule)) else r)
      (map2 (\<and>) (map (\<lambda>r. snd r = Some ''Uncategorized'') rows) (map (\<lambda>r. False) rows)) rows = rows"
    by (induction rows) auto
  show ?thesis using any cm keep by (simp add: Let_def)
qed

lemma apply_rules_run_row:
  assumes "\<forall>rule\<in>set rules. regexes_compile re rule"
  shows "apply_rules_vectorized re df rules =
         Inr (map (run_row re rules) (with_category_column df))"
  using rules_loop_run_row[OF assms, of "with_category_column df"]
  by (simp add: apply_rules_vectorized_def Let_def)

lemma run_row_fst: "fst (run_row re rules r) = fst r"
  by (simp add: run_row_def split: option.splits)

lemma run_row_definite:
  "snd r = Some ''Uncategorized'' \<Longrightarrow> snd (run_row re rules r) \<noteq> None"
  by (simp add: run_row_def split: option.splits)

lemma run_row_no_match:
  assumes "\<forall>rule\<in>set rules. \<not> rule_matches re rule (fst r)"
  shows "run_row re rules r = r"
proof -
  have "find (\<lambda>rule. assigns re rule (fst r)) rules = None"
    using assms by (simp add: find_None_iff assigns_def)
  then show ?thesis by (simp add: run_row_def)
qed

section \<open>Classification: the claims\<close>

lemma lower_upper: "lower (upper s) = lower s"
proof -
  have "lower_char (upper_char c) = lower_char c" for c
  proof -
    have "(of_char (lower_char (upper_char c)) :: nat) = of_char (lower_char c)"
      unfolding of_char_lower_char of_char_upper_char by (simp del: of_char_eq_iff) arith
    then show ?thesis by simp
  qed
  then show ?thesis by (simp add: lower_def upper_def)
qed

lemma str_contains_plain:
  "str_contains re (map lower ds) (lower p) False =
     Inr (map (\<lambda>d. sublist (lower p) (lower d)) ds)"
  by (simp add: str_contains_def comp_def str_in_upper_lower)

text \<open>
  Claim C1, amended. When every non-empty regex pattern of the rules compiles and no rule
  is named "Uncategorized", \<open>apply_rules_vectorized\<close> returns the frame in which every row
  whose category was "Uncategorized" carries the name of the first rule of the list that
  matches its details (and stays "Uncategorized" when none does), and every other row is
  unchanged. The two-rule scenario Supermercado/LULU, Entretenimiento/NETFLIX gives
  Supermercado and Entretenimiento, whatever the regex engine.
\<close>

theorem first_match_wins:
  assumes "\<forall>rule\<in>set rules. regexes_compile re rule"
    and "\<forall>rule\<in>set rules. name rule \<noteq> ''Uncategorized''"
  shows "apply_rules_vectorized re df rules =
           Inr (map (classify_row re rules) (with_category_column df)) \<and>
         apply_rules_vectorized re
           (NoCategory [''COMPRA LULU HYPERMARKET'', ''PAGO NETFLIX''])
           [\<lparr>name = ''Supermercado'', priority = 1, patterns = [''LULU''],
              is_regex_flags = [False]\<rparr>,
            \<lparr>name = ''Entretenimiento'', priority = 2, patterns = [''NETFLIX''],
              is_regex_flags = [False]\<rparr>] =
           Inr [(''COMPRA LULU HYPERMARKET'', Some ''Supermercado''),
                (''PAGO NETFLIX'', Some ''Entretenimiento'')]"
proof
  have "map (run_row re rules) (with_category_column df) =
        map (classify_row re rules) (with_category_column df)"
    using run_row_classify_row[OF assms(2)] by simp
  then show "apply_rules_vectorized re df rules =
      Inr (map (classify_row re rules) (with_category_column df))"
    using apply_rules_run_row[OF assms(1), of df] by simp
  show "apply_rules_vectorized re
           (NoCategory [''COMPRA LULU HYPERMARKET'', ''PAGO NETFLIX''])
           [\<lparr>name = ''Supermercado'', priority = 1, patterns = [''LULU''],
              is_regex_flags = [False]\<rparr>,
            \<lparr>name = ''Entretenimiento'', priority = 2, patterns = [''NETFLIX''],
              is_regex_flags = [False]\<rparr>] =
           Inr [(''COMPRA LULU HYPERMARKET'', Some ''Supermercado''),
                (''PAGO NETFLIX'', Some ''Entretenimiento'')]"
    by code_simp
qed

theorem first_match_wins_witness:
  "regexes_compile re_compile_ignorecase
     \<lparr>name = ''Cash'', priority = 1, patterns = [''^ATM.*''], is_regex_flags = [True]\<rparr> \<and>
   regexes_compile re_compile_ignorecase
     \<lparr>name = ''Supermercado'', priority = 2, patterns = [''LULU'', ''ATM''],
       is_regex_flags = [False, False]\<rparr> \<and>
   name \<lparr>name = ''Cash'', priority = 1, patterns = [''^ATM.*''], is_regex_flags = [True]\<rparr> \<noteq>
     ''Uncategorized'' \<and>
   name \<lparr>name = ''Supermercado'', priority = 2, patterns = [''LULU'', ''ATM''],
       is_regex_flags = [False, False]\<rparr> \<noteq> ''Uncategorized'' \<and>
   apply_rules_vectorized re_compile_ignorecase (NoCategory [''ATM 500'', ''COMPRA LULU''])
     [\<lparr>name = ''Cash'', priority = 1, patterns = [''^ATM.*''], is_regex_flags = [True]\<rparr>,
      \<lparr>name = ''Supermercado'', priority = 2, patterns = [''LULU'', ''ATM''],
        is_regex_flags = [False, False]\<rparr>] =
     Inr (map (classify_row re_compile_ignorecase
            [\<lparr>name = ''Cash'', priority = 1, patterns = [''^ATM.*''], is_regex_flags = [True]\<rparr>,
             \<lparr>name = ''Supermercado'', priority = 2, patterns = [''LULU'', ''ATM''],
               is_regex_flags = [False, False]\<rparr>])
          (with_category_column (NoCategory [''ATM 500'', ''COMPRA LULU'']))) \<and>
   map (classify_row re_compile_ignorecase
            [\<lparr>name = ''Cash'', priority = 1, patterns = [''^ATM.*''], is_regex_flags = [True]\<rparr>,
             \<lparr>name = ''Supermercado'', priority = 2, patterns = [''LULU'', ''ATM''],
               is_regex_flags = [False, False]\<rparr>])
          (with_category_column (NoCategory [''ATM 500'', ''COMPRA LULU''])) =
     [(''ATM 500'', Some ''Cash''), (''COMPRA LULU'', Some ''Supermercado'')]"
proof -
  let ?rules = "[\<lparr>name = ''Cash'', priority = 1, patterns = [''^ATM.*''], is_regex_flags = [True]\<rparr>,
                 \<lparr>name = ''Supermercado'', priority = 2, patterns = [''LULU'', ''ATM''],
                   is_regex_flags = [False, False]\<rparr>]"
  have c1: "regexes_compile re_compile_ignorecase
     \<lparr>name = ''Cash'', priority = 1, patterns = [''^ATM.*''], is_regex_flags = [True]\<rparr>"
    by code_simp
  have c2: "regexes_compile re_compile_ignorecase
     \<lparr>name = ''Supermercado'', priority = 2, patterns = [''LULU'', ''ATM''],
       is_regex_flags = [False, False]\<rparr>"
    by code_simp
  have n1: "name \<lparr>name = ''Cash'', priority = 1, patterns = [''^ATM.*''],
       is_regex_flags = [True]\<rparr> \<noteq> ''Uncategorized''"
    by simp
  have n2: "name \<lparr>name = ''Supermercado'', priority = 2, patterns = [''LULU'', ''ATM''],
       is_regex_flags = [False, False]\<rparr> \<noteq> ''Uncategorized''"
    by simp
  have h1: "\<forall>rule\<in>set ?rules. regexes_compile re_compile_ignorecase rule"
    using c1 c2 by simp
  have h2: "\<forall>rule\<in>set ?rules. name rule \<noteq> ''Uncategorized''"
    using n1 n2 by simp
  have r: "map (classify_row re_compile_ignorecase ?rules)
          (with_category_column (NoCategory [''ATM 500'', ''COMPRA LULU''])) =
     [(''ATM 500'', Some ''Cash''), (''COMPRA LULU'', Some ''Supermercado'')]" by code_simp
  from first_match_wins[OF h1 h2, of "NoCategory [''ATM 500'', ''COMPRA LULU'']"]
  have a: "apply_rules_vectorized re_compile_ignorecase (NoCategory [''ATM 500'', ''COMPRA LULU''])
      ?rules = Inr (map (classify_row re_compile_ignorecase ?rules)
          (with_category_column (NoCategory [''ATM 500'', ''COMPRA LULU''])))"
    by (rule conjunct1)
  show ?thesis by (intro conjI) (rule c1, rule c2, rule n1, rule n2, rule a, rule r)
qed

text \<open>
  The claim as stated fails for a rule list that holds a rule named "Uncategorized": the
  first rule matching "COMPRA LULU" is that rule, yet the row ends as "Supermercado",
  the name of the second rule.
\<close>

theorem first_match_wins_counterexample:
  "rule_matches re_compile_ignorecase
     \<lparr>name = ''Uncategorized'', priority = 1, patterns = [''LULU''], is_regex_flags = [False]\<rparr>
     ''COMPRA LULU'' \<and>
   apply_rules_vectorized re_compile_ignorecase (NoCategory [''COMPRA LULU''])
     [\<lparr>name = ''Uncategorized'', priority = 1, patterns = [''LULU''], is_regex_flags = [False]\<rparr>,
      \<lparr>name = ''Supermercado'', priority = 2, patterns = [''LULU''], is_regex_flags = [False]\<rparr>] =
   Inr [(''COMPRA LULU'', Some ''Supermercado'')]"
  by code_simp

text \<open>
  Claim C3, amended. A malformed regex is not isolated. Let the rules before \<open>rule\<close>
  compile. If some row is still "Uncategorized" after them and a non-empty regex pattern
  of \<open>rule\<close> does not compile, the call raises: no frame is returned. If no row is
  "Uncategorized" after them, the loop stops there: \<open>rule\<close> and the rules after it are
  never evaluated, malformed or not.
\<close>

theorem malformed_regex_raises:
  assumes "\<forall>r\<in>set pre. regexes_compile re r"
  shows "((\<exists>r\<in>set (with_category_column df). snd (run_row re pre r) = Some ''Uncategorized'') \<and>
          \<not> regexes_compile re rule \<longrightarrow>
            isl (apply_rules_vectorized re df (pre @ rule # post))) \<and>
         (\<not> (\<exists>r\<in>set (with_category_column df). snd (run_row re pre r) = Some ''Uncategorized'') \<longrightarrow>
            apply_rules_vectorized re df (pre @ rule # post) =
              Inr (map (run_row re pre) (with_category_column df)))"
proof (intro conjI impI)
  let ?rows = "with_category_column df"
  let ?dn = "map (\<lambda>r. lower (fst r)) ?rows"
  let ?rows' = "map (run_row re pre) ?rows"
  have pre: "rules_loop re ?dn ?rows pre = Inr ?rows'"
    using assms by (rule rules_loop_run_row)
  {
    assume a: "(\<exists>r\<in>set ?rows. snd (run_row re pre r) = Some ''Uncategorized'') \<and>
               \<not> regexes_compile re rule"
    then have any: "list_ex id (map (\<lambda>r. snd r = Some ''Uncategorized'') ?rows')"
      by (simp add: list_ex_iff)
    have "list_ex (regex_fails re) (zip (patterns rule) (is_regex_flags rule))"
      using a by (simp add: regexes_compile_def)
    then have "isl (category_mask_loop re ?dn (zip (patterns rule) (is_regex_flags rule))
         (map (\<lambda>r. False) ?rows'))"
      by (rule category_mask_loop_fails)
    then have "isl (rules_loop re ?dn ?rows' (rule # post))"
      using any by (auto simp: Let_def split: sum.splits)
    then show "isl (apply_rules_vectorized re df (pre @ rule # post))"
      by (simp add: apply_rules_vectorized_def Let_def rules_loop_append pre)
  }
  {
    assume "\<not> (\<exists>r\<in>set ?rows. snd (run_row re pre r) = Some ''Uncategorized'')"
    then have "\<not> list_ex (\<lambda>r. snd r = Some ''Uncategorized'') ?rows'"
      by (simp add: list_ex_iff)
    then have stop: "rules_loop re ?dn ?rows' (rule # post) = Inr ?rows'"
      by (rule rules_loop_none_uncategorized)
    show "apply_rules_vectorized re df (pre @ rule # post) = Inr ?rows'"
      unfolding apply_rules_vectorized_def Let_def rules_loop_append pre
      by (simp only: sum.case stop)
  }
qed

theorem malformed_regex_raises_witness:
  "(\<exists>r\<in>set (with_category_column (NoCategory [''PAGO NETFLIX''])).
       snd (run_row re_compile_ignorecase [] r) = Some ''Uncategorized'') \<and>
   \<not> regexes_compile re_compile_ignorecase
       \<lparr>name = ''Entretenimiento'', priority = 1, patterns = [''(''], is_regex_flags = [True]\<rparr> \<and>
   isl (apply_rules_vectorized re_compile_ignorecase (NoCategory [''PAGO NETFLIX''])
          ([] @ \<lparr>name = ''Entretenimiento'', priority = 1, patterns = [''(''],
                  is_regex_flags = [True]\<rparr> # [])) \<and>
   regexes_compile re_compile_ignorecase
     \<lparr>name = ''Ocio'', priority = 1, patterns = [''NETFLIX''], is_regex_flags = [False]\<rparr> \<and>
   \<not> (\<exists>r\<in>set (with_category_column (NoCategory [''PAGO NETFLIX''])).
       snd (run_row re_compile_ignorecase
              [\<lparr>name = ''Ocio'', priority = 1, patterns = [''NETFLIX''], is_regex_flags = [False]\<rparr>] r) =
         Some ''Uncategorized'') \<and>
   apply_rules_vectorized re_compile_ignorecase (NoCategory [''PAGO NETFLIX''])
     ([\<lparr>name = ''Ocio'', priority = 1, patterns = [''NETFLIX''], is_regex_flags = [False]\<rparr>] @
      \<lparr>name = ''Entretenimiento'', priority = 1, patterns = [''(''], is_regex_flags = [True]\<rparr> # []) =
     Inr (map (run_row re_compile_ignorecase
            [\<lparr>name = ''Ocio'', priority = 1, patterns = [''NETFLIX''], is_regex_flags = [False]\<rparr>])
          (with_category_column (NoCategory [''PAGO NETFLIX''])))"
proof -
  let ?bad = "\<lparr>name = ''Entretenimiento'', priority = 1, patterns = [''(''], is_regex_flags = [True]\<rparr>"
  let ?ocio = "\<lparr>name = ''Ocio'', priority = 1, patterns = [''NETFLIX''], is_regex_flags = [False]\<rparr>"
  let ?df = "NoCategory [''PAGO NETFLIX'']"
  have h1: "\<forall>r\<in>set []. regexes_compile re_compile_ignorecase r" by simp
  have h2: "\<exists>r\<in>set (with_category_column ?df).
       snd (run_row re_compile_ignorecase [] r) = Some ''Uncategorized''" by code_simp
  have h3: "\<not> regexes_compile re_compile_ignorecase ?bad" by code_simp
  have c1: "isl (apply_rules_vectorized re_compile_ignorecase ?df ([] @ ?bad # []))"
    using malformed_regex_raises[OF h1, of ?df ?bad "[]"] h2 h3 by blast
  have k0: "regexes_compile re_compile_ignorecase ?ocio" by code_simp
  then have k1: "\<forall>r\<in>set [?ocio]. regexes_compile re_compile_ignorecase r" by simp
  have k2: "\<not> (\<exists>r\<in>set (with_category_column ?df).
       snd (run_row re_compile_ignorecase [?ocio] r) = Some ''Uncategorized'')" by code_simp
  have c2: "apply_rules_vectorized re_compile_ignorecase ?df ([?ocio] @ ?bad # []) =
     Inr (map (run_row re_compile_ignorecase [?ocio]) (with_category_column ?df))"
    using malformed_regex_raises[OF k1, of ?df ?bad "[]"] k2 by blast
  show ?thesis by (intro conjI) (rule h2, rule h3, rule c1, rule k0, rule k2, rule c2)
qed

text \<open>
  The claim as stated fails: with the malformed regex "(" next to the plain pattern
  "NETFLIX" in one rule, the call raises instead of classifying "PAGO NETFLIX".
\<close>

theorem malformed_regex_isolation_counterexample:
  "apply_rules_vectorized re_compile_ignorecase (NoCategory [''PAGO NETFLIX''])
     [\<lparr>name = ''Entretenimiento'', priority = 1, patterns = [''('', ''NETFLIX''],
       is_regex_flags = [True, False]\<rparr>] = Inl RegexError"
  by code_simp

text \<open>
  Claim C4, amended. When every non-empty regex pattern of the rules compiles, the call
  returns a frame with the same rows in the same order, in which every row that was
  "Uncategorized" at the start (every row, when the frame had no Category column) has a
  definite category, "Uncategorized" if no rule matches its details; a row that came
  with another category value, or with a null, keeps it.
\<close>

theorem classification_total:
  assumes "\<forall>rule\<in>set rules. regexes_compile re rule"
  shows "\<exists>out. apply_rules_vectorized re df rules = Inr out \<and>
           list_all2 (\<lambda>r out_r. fst out_r = fst r \<and>
               (snd r = Some ''Uncategorized'' \<longrightarrow>
                  snd out_r \<noteq> None \<and>
                  ((\<forall>rule\<in>set rules. \<not> rule_matches re rule (fst r)) \<longrightarrow>
                     snd out_r = Some ''Uncategorized'')) \<and>
               (snd r \<noteq> Some ''Uncategorized'' \<longrightarrow> snd out_r = snd r))
             (with_category_column df) out"
proof -
  let ?rows = "with_category_column df"
  let ?P = "\<lambda>r out_r. fst out_r = fst r \<and>
               (snd r = Some ''Uncategorized'' \<longrightarrow>
                  snd out_r \<noteq> None \<and>
                  ((\<forall>rule\<in>set rules. \<not> rule_matches re rule (fst r)) \<longrightarrow>
                     snd out_r = Some ''Uncategorized'')) \<and>
               (snd r \<noteq> Some ''Uncategorized'' \<longrightarrow> snd out_r = snd r)"
  have each: "?P r (run_row re rules r)" for r
    using run_row_fst[of re rules r] run_row_definite[of r re rules]
      run_row_no_match[of rules re r] run_row_other[of r re rules]
    by auto
  have "list_all2 ?P ?rows (map (run_row re rules) ?rows)"
    unfolding list_all2_map2 by (rule list_all2_refl) (rule each)
  then show ?thesis using apply_rules_run_row[OF assms, of df] by blast
qed

theorem classification_total_witness:
  "regexes_compile re_compile_ignorecase
     \<lparr>name = ''Supermercado'', priority = 1, patterns = [''LULU''], is_regex_flags = [False]\<rparr> \<and>
   apply_rules_vectorized re_compile_ignorecase (NoCategory [''COMPRA LULU'', ''PAGO VARIOS''])
     [\<lparr>name = ''Supermercado'', priority = 1, patterns = [''LULU''], is_regex_flags = [False]\<rparr>] =
     Inr [(''COMPRA LULU'', Some ''Supermercado''), (''PAGO VARIOS'', Some ''Uncategorized'')] \<and>
   (\<exists>out. apply_rules_vectorized re_compile_ignorecase
            (NoCategory [''COMPRA LULU'', ''PAGO VARIOS''])
            [\<lparr>name = ''Supermercado'', priority = 1, patterns = [''LULU''],
               is_regex_flags = [False]\<rparr>] = Inr out \<and>
          list_all2 (\<lambda>r out_r. fst out_r = fst r \<and>
               (snd r = Some ''Uncategorized'' \<longrightarrow>
                  snd out_r \<noteq> None \<and>
                  ((\<forall>rule\<in>set [\<lparr>name = ''Supermercado'', priority = 1, patterns = [''LULU''],
                                   is_regex_flags = [False]\<rparr>].
                       \<not> rule_matches re_compile_ignorecase rule (fst r)) \<longrightarrow>
                     snd out_r = Some ''Uncategorized'')) \<and>
               (snd r \<noteq> Some ''Uncategorized'' \<longrightarrow> snd out_r = snd r))
             (with_category_column (NoCategory [''COMPRA LULU'', ''PAGO VARIOS''])) out)"
proof -
  let ?rules = "[\<lparr>name = ''Supermercado'', priority = 1, patterns = [''LULU''],
                   is_regex_flags = [False]\<rparr>]"
  have h0: "regexes_compile re_compile_ignorecase
     \<lparr>name = ''Supermercado'', priority = 1, patterns = [''LULU''], is_regex_flags = [False]\<rparr>"
    by code_simp
  then have h: "\<forall>rule\<in>set ?rules. regexes_compile re_compile_ignorecase rule" by simp
  have r: "apply_rules_vectorized re_compile_ignorecase
       (NoCategory [''COMPRA LULU'', ''PAGO VARIOS'']) ?rules =
     Inr [(''COMPRA LULU'', Some ''Supermercado''), (''PAGO VARIOS'', Some ''Uncategorized'')]"
    by code_simp
  show ?thesis
    by (intro conjI) (rule h0, rule r,
      rule classification_total[OF h, of "NoCategory [''COMPRA LULU'', ''PAGO VARIOS'']"])
qed

text \<open>
  The claim as stated fails for a frame that comes with a Category column: the row
  "PAGO VARIOS" matches no rule and ends as "Comida", not "Uncategorized", and the row
  with a null category ends with a null.
\<close>

theorem classification_total_counterexample:
  "\<not> rule_matches re_compile_ignorecase
      \<lparr>name = ''Supermercado'', priority = 1, patterns = [''LULU''], is_regex_flags = [False]\<rparr>
      ''PAGO VARIOS'' \<and>
   apply_rules_vectorized re_compile_ignorecase
     (WithCategory [(''PAGO VARIOS'', Some ''Comida''), (''PAGO VARIOS'', None)])
     [\<lparr>name = ''Supermercado'', priority = 1, patterns = [''LULU''], is_regex_flags = [False]\<rparr>] =
   Inr [(''PAGO VARIOS'', Some ''Comida''), (''PAGO VARIOS'', None)]"
  by code_simp

text \<open>
  Claim C10. The pattern loop skips an empty pattern, regex or not, without looking at
  the details; a rule all of whose patterns are empty can be removed from the rule list
  without changing the result, so it assigns no row; and yet the empty text is contained
  in every text.
\<close>

theorem empty_patterns_match_nothing:
  "category_mask_loop re details_norm (([], is_regex) # rest) cm =
     category_mask_loop re details_norm rest cm \<and>
   ((\<forall>p\<in>set (patterns rule). p = []) \<longrightarrow>
      apply_rules_vectorized re df (pre @ rule # post) = apply_rules_vectorized re df (pre @ post)) \<and>
   str_in [] (upper x)"
proof (intro conjI impI)
  show "category_mask_loop re details_norm (([], is_regex) # rest) cm =
     category_mask_loop re details_norm rest cm" by simp
  show "str_in [] (upper x)" by (simp add: str_in_sublist)
  assume "\<forall>p\<in>set (patterns rule). p = []"
  then have skip: "\<And>rows. rules_loop re (map (\<lambda>r. lower (fst r)) (with_category_column df)) rows (rule # post) =
         rules_loop re (map (\<lambda>r. lower (fst r)) (with_category_column df)) rows post"
    by (rule rules_loop_skip_empty)
  show "apply_rules_vectorized re df (pre @ rule # post) = apply_rules_vectorized re df (pre @ post)"
    unfolding apply_rules_vectorized_def Let_def rules_loop_append
    by (cases "rules_loop re (map (\<lambda>r. lower (fst r)) (with_category_column df))
                 (with_category_column df) pre")
       (simp_all only: sum.case skip)
qed

theorem empty_patterns_match_nothing_witness:
  "set (patterns \<lparr>name = ''Varios'', priority = 1, patterns = ['''', ''''],
                   is_regex_flags = [False, True]\<rparr>) = {[]} \<and>
   apply_rules_vectorized re_compile_ignorecase (NoCategory [''COMPRA LULU''])
     ([] @ \<lparr>name = ''Varios'', priority = 1, patterns = ['''', ''''],
             is_regex_flags = [False, True]\<rparr> # []) =
   apply_rules_vectorized re_compile_ignorecase (NoCategory [''COMPRA LULU'']) ([] @ []) \<and>
   apply_rules_vectorized re_compile_ignorecase (NoCategory [''COMPRA LULU'']) ([] @ []) =
     Inr [(''COMPRA LULU'', Some ''Uncategorized'')]"
proof -
  let ?rule = "\<lparr>name = ''Varios'', priority = 1, patterns = ['''', ''''],
                 is_regex_flags = [False, True]\<rparr>"
  have h0: "set (patterns ?rule) = {[]}" by simp
  have h: "\<forall>p\<in>set (patterns ?rule). p = []" by simp
  have r: "apply_rules_vectorized re_compile_ignorecase (NoCategory [''COMPRA LULU'']) ([] @ []) =
     Inr [(''COMPRA LULU'', Some ''Uncategorized'')]" by code_simp
  have "apply_rules_vectorized re_compile_ignorecase (NoCategory [''COMPRA LULU''])
          ([] @ ?rule # []) =
        apply_rules_vectorized re_compile_ignorecase (NoCategory [''COMPRA LULU'']) ([] @ [])"
    using empty_patterns_match_nothing[of re_compile_ignorecase _ _ _ _ ?rule
        "NoCategory [''COMPRA LULU'']" "[]" "[]"] h
    by blast
  then show ?thesis using h0 r by blast
qed

text \<open>
  Claim C6. A plain pattern is looked for in lower case in the lower-cased details, as
  a contiguous block; a regex pattern is compiled ignoring case and searched in the
  lower-cased details; putting the text in upper case changes neither. The pattern "lulu"
  matches "COMPRA LULU HYPERMARKET"; the regex "^ATM.*" matches "ATM WITHDRAWAL 500" and
  not "PAYMENT ATM FEE", which the plain pattern "ATM" does match; the regex "^atm.*"
  matches "ATM WITHDRAWAL 500" too. A regex is searched for, not matched against the
  whole text or at its start only: the regex "ATM" matches "PAYMENT ATM FEE" and
  "ATM WITHDRAWAL 500" and not "PAYMENT FEE", and the regex "atm$" matches "PAYMENT ATM"
  and not "PAYMENT ATM FEE". A plain pattern is not read as a regex: the plain pattern
  "^ATM.*" does not match "ATM WITHDRAWAL 500", and matches a text that holds these
  six characters.
\<close>

theorem matching_semantics:
  "str_contains re (map lower ds) (lower p) False =
     Inr (map (\<lambda>d. sublist (lower p) (lower d)) ds) \<and>
   str_contains re (map lower ds) p True =
     (case re p of Inl e \<Rightarrow> Inl e | Inr m \<Rightarrow> Inr (map (\<lambda>d. m (lower d)) ds)) \<and>
   str_contains re (map lower (map upper ds)) (lower (upper p)) False =
     str_contains re (map lower ds) (lower p) False \<and>
   str_contains re (map lower (map upper ds)) p True = str_contains re (map lower ds) p True \<and>
   apply_rules_vectorized re (NoCategory [''COMPRA LULU HYPERMARKET''])
     [\<lparr>name = ''Supermercado'', priority = 1, patterns = [''lulu''], is_regex_flags = [False]\<rparr>] =
     Inr [(''COMPRA LULU HYPERMARKET'', Some ''Supermercado'')] \<and>
   apply_rules_vectorized re_compile_ignorecase
     (NoCategory [''ATM WITHDRAWAL 500'', ''PAYMENT ATM FEE''])
     [\<lparr>name = ''Cash'', priority = 1, patterns = [''^ATM.*''], is_regex_flags = [True]\<rparr>] =
     Inr [(''ATM WITHDRAWAL 500'', Some ''Cash''), (''PAYMENT ATM FEE'', Some ''Uncategorized'')] \<and>
   apply_rules_vectorized re (NoCategory [''ATM WITHDRAWAL 500'', ''PAYMENT ATM FEE''])
     [\<lparr>name = ''Cash'', priority = 1, patterns = [''ATM''], is_regex_flags = [False]\<rparr>] =
     Inr [(''ATM WITHDRAWAL 500'', Some ''Cash''), (''PAYMENT ATM FEE'', Some ''Cash'')] \<and>
   apply_rules_vectorized re_compile_ignorecase (NoCategory [''ATM WITHDRAWAL 500''])
     [\<lparr>name = ''Cash'', priority = 1, patterns = [''^atm.*''], is_regex_flags = [True]\<rparr>] =
     Inr [(''ATM WITHDRAWAL 500'', Some ''Cash'')] \<and>
   apply_rules_vectorized re_compile_ignorecase
     (NoCategory [''PAYMENT ATM FEE'', ''ATM WITHDRAWAL 500'', ''PAYMENT FEE''])
     [\<lparr>name = ''Cash'', priority = 1, patterns = [''ATM''], is_regex_flags = [True]\<rparr>] =
     Inr [(''PAYMENT ATM FEE'', Some ''Cash''), (''ATM WITHDRAWAL 500'', Some ''Cash''),
          (''PAYMENT FEE'', Some ''Uncategorized'')] \<and>
   apply_rules_vectorized re_compile_ignorecase
     (NoCategory [''PAYMENT ATM'', ''PAYMENT ATM FEE''])
     [\<lparr>name = ''Cash'', priority = 1, patterns = [''atm$''], is_regex_flags = [True]\<rparr>] =
     Inr [(''PAYMENT ATM'', Some ''Cash''), (''PAYMENT ATM FEE'', Some ''Uncategorized'')] \<and>
   apply_rules_vectorized re
     (NoCategory [''ATM WITHDRAWAL 500'', ''REF ^ATM.* 7''])
     [\<lparr>name = ''Cash'', priority = 1, patterns = [''^ATM.*''], is_regex_flags = [False]\<rparr>] =
     Inr [(''ATM WITHDRAWAL 500'', Some ''Uncategorized''), (''REF ^ATM.* 7'', Some ''Cash'')]"
proof (intro conjI)
  show "str_contains re (map lower ds) (lower p) False =
     Inr (map (\<lambda>d. sublist (lower p) (lower d)) ds)"
    by (rule str_contains_plain)
  show "str_contains re (map lower ds) p True =
     (case re p of Inl e \<Rightarrow> Inl e | Inr m \<Rightarrow> Inr (map (\<lambda>d. m (lower d)) ds))"
    by (simp add: str_contains_def comp_def split: sum.splits)
  have same: "map lower (map upper ds) = map lower ds"
    by (simp add: lower_upper)
  show "str_contains re (map lower (map upper ds)) (lower (upper p)) False =
     str_contains re (map lower ds) (lower p) False"
    by (simp only: same lower_upper)
  show "str_contains re (map lower (map upper ds)) p True = str_contains re (map lower ds) p True"
    by (simp only: same)
  show "apply_rules_vectorized re (NoCategory [''COMPRA LULU HYPERMARKET''])
     [\<lparr>name = ''Supermercado'', priority = 1, patterns = [''lulu''], is_regex_flags = [False]\<rparr>] =
     Inr [(''COMPRA LULU HYPERMARKET'', Some ''Supermercado'')]"
    by code_simp
  show "apply_rules_vectorized re_compile_ignorecase
     (NoCategory [''ATM WITHDRAWAL 500'', ''PAYMENT ATM FEE''])
     [\<lparr>name = ''Cash'', priority = 1, patterns = [''^ATM.*''], is_regex_flags = [True]\<rparr>] =
     Inr [(''ATM WITHDRAWAL 500'', Some ''Cash''), (''PAYMENT ATM FEE'', Some ''Uncategorized'')]"
    by code_simp
  show "apply_rules_vectorized re (NoCategory [''ATM WITHDRAWAL 500'', ''PAYMENT ATM FEE''])
     [\<lparr>name = ''Cash'', priority = 1, patterns = [''ATM''], is_regex_flags = [False]\<rparr>] =
     Inr [(''ATM WITHDRAWAL 500'', Some ''Cash''), (''PAYMENT ATM FEE'', Some ''Cash'')]"
    by code_simp
  show "apply_rules_vectorized re_compile_ignorecase (NoCategory [''ATM WITHDRAWAL 500''])
     [\<lparr>name = ''Cash'', priority = 1, patterns = [''^atm.*''], is_regex_flags = [True]\<rparr>] =
     Inr [(''ATM WITHDRAWAL 500'', Some ''Cash'')]"
    by code_simp
  show "apply_rules_vectorized re_compile_ignorecase
     (NoCategory [''PAYMENT ATM FEE'', ''ATM WITHDRAWAL 500'', ''PAYMENT FEE''])
     [\<lparr>name = ''Cash'', priority = 1, patterns = [''ATM''], is_regex_flags = [True]\<rparr>] =
     Inr [(''PAYMENT ATM FEE'', Some ''Cash''), (''ATM WITHDRAWAL 500'', Some ''Cash''),
          (''PAYMENT FEE'', Some ''Uncategorized'')]"
    by code_simp
  show "apply_rules_vectorized re_compile_ignorecase
     (NoCategory [''PAYMENT ATM'', ''PAYMENT ATM FEE''])
     [\<lparr>name = ''Cash'', priority = 1, patterns = [''atm$''], is_regex_flags = [True]\<rparr>] =
     Inr [(''PAYMENT ATM'', Some ''Cash''), (''PAYMENT ATM FEE'', Some ''Uncategorized'')]"
    by code_simp
  show "apply_rules_vectorized re
     (NoCategory [''ATM WITHDRAWAL 500'', ''REF ^ATM.* 7''])
     [\<lparr>name = ''Cash'', priority = 1, patterns = [''^ATM.*''], is_regex_flags = [False]\<rparr>] =
     Inr [(''ATM WITHDRAWAL 500'', Some ''Uncategorized''), (''REF ^ATM.* 7'', Some ''Cash'')]"
    by code_simp
qed

section \<open>Rule compilation: the claim\<close>

lemma build_rules_loop_filter:
  "build_rules_loop cats rules = rules @ map rule_of_category (filter survives cats)"
  by (induction cats arbitrary: rules)
     (simp_all add: Let_def survives_def rule_of_category_def enabled_keywords_def)

lemma build_rules_sorted_filter:
  "build_rules_from_storage cats = sort_key priority (map rule_of_category (filter survives cats))"
  by (simp add: build_rules_from_storage_def build_rules_loop_filter)

lemma priority_rule_of_category: "priority (rule_of_category c) = cat_priority c"
  by (simp add: rule_of_category_def)

lemma insort_key_map:
  "insort_key f (g x) (map g xs) = map g (insort_key (\<lambda>y. f (g y)) x xs)"
  by (induction xs) simp_all

lemma sort_key_map: "sort_key f (map g xs) = map g (sort_key (\<lambda>y. f (g y)) xs)"
  by (induction xs) (simp_all add: insort_key_map)

lemma build_rules_map_sorted:
  "build_rules_from_storage cats =
     map rule_of_category (sort_key cat_priority (filter survives cats))"
  by (simp add: build_rules_sorted_filter sort_key_map priority_rule_of_category)

text \<open>
  Claim C2. The rule builder returns one rule for each category of the snapshot that is
  not named "Uncategorized" and has an enabled keyword, and no other rule; the rule of a
  category carries its enabled keywords in the order of its keyword list; the rules are
  sorted by ascending priority, and categories of equal priority keep the order of the
  snapshot. No rule is named "Uncategorized" and no rule is without patterns.
\<close>

theorem rule_compilation:
  "build_rules_from_storage cats =
     map rule_of_category (sort_key cat_priority (filter survives cats)) \<and>
   sorted (map priority (build_rules_from_storage cats)) \<and>
   filter (\<lambda>r. priority r = k) (build_rules_from_storage cats) =
     map rule_of_category (filter (\<lambda>c. survives c \<and> cat_priority c = k) cats) \<and>
   length (build_rules_from_storage cats) = length (filter survives cats) \<and>
   set (build_rules_from_storage cats) = rule_of_category ` {c \<in> set cats. survives c} \<and>
   (\<forall>r\<in>set (build_rules_from_storage cats). name r \<noteq> ''Uncategorized'' \<and> patterns r \<noteq> [])"
proof (intro conjI)
  show "build_rules_from_storage cats =
     map rule_of_category (sort_key cat_priority (filter survives cats))"
    by (rule build_rules_map_sorted)
  show "sorted (map priority (build_rules_from_storage cats))"
    by (simp only: build_rules_sorted_filter sorted_sort_key)
  show "filter (\<lambda>r. priority r = k) (build_rules_from_storage cats) =
     map rule_of_category (filter (\<lambda>c. survives c \<and> cat_priority c = k) cats)"
    by (simp add: build_rules_sorted_filter sort_key_stable filter_map comp_def
          priority_rule_of_category conj_commute)
  show "length (build_rules_from_storage cats) = length (filter survives cats)"
    by (simp add: build_rules_sorted_filter)
  show s: "set (build_rules_from_storage cats) = rule_of_category ` {c \<in> set cats. survives c}"
    by (simp add: build_rules_sorted_filter)
  show "\<forall>r\<in>set (build_rules_from_storage cats). name r \<noteq> ''Uncategorized'' \<and> patterns r \<noteq> []"
    unfolding s by (auto simp: survives_def rule_of_category_def)
qed

theorem rule_compilation_witness:
  "build_rules_from_storage
     [\<lparr>cat_id = 1, cat_name = ''Uncategorized'', cat_priority = 0,
        cat_keywords = [\<lparr>kw_id = 1, kw_pattern = ''X'', kw_is_regex = False, kw_enabled = True\<rparr>]\<rparr>,
      \<lparr>cat_id = 2, cat_name = ''Ocio'', cat_priority = 20,
        cat_keywords = [\<lparr>kw_id = 2, kw_pattern = ''NETFLIX'', kw_is_regex = False, kw_enabled = True\<rparr>]\<rparr>,
      \<lparr>cat_id = 3, cat_name = ''Viajes'', cat_priority = 5,
        cat_keywords = [\<lparr>kw_id = 3, kw_pattern = ''HOTEL'', kw_is_regex = False, kw_enabled = False\<rparr>]\<rparr>,
      \<lparr>cat_id = 4, cat_name = ''Supermercado'', cat_priority = 10,
        cat_keywords = [\<lparr>kw_id = 4, kw_pattern = ''LULU'', kw_is_regex = False, kw_enabled = True\<rparr>,
                        \<lparr>kw_id = 5, kw_pattern = ''COOP'', kw_is_regex = False, kw_enabled = False\<rparr>,
                        \<lparr>kw_id = 6, kw_pattern = ''^CARREFOUR'', kw_is_regex = True, kw_enabled = True\<rparr>]\<rparr>,
      \<lparr>cat_id = 5, cat_name = ''Cash'', cat_priority = 10,
        cat_keywords = [\<lparr>kw_id = 7, kw_pattern = ''ATM'', kw_is_regex = False, kw_enabled = True\<rparr>]\<rparr>] =
     [\<lparr>name = ''Supermercado'', priority = 10, patterns = [''LULU'', ''^CARREFOUR''],
        is_regex_flags = [False, True]\<rparr>,
      \<lparr>name = ''Cash'', priority = 10, patterns = [''ATM''], is_regex_flags = [False]\<rparr>,
      \<lparr>name = ''Ocio'', priority = 20, patterns = [''NETFLIX''], is_regex_flags = [False]\<rparr>] \<and>
   \<not> list_ex (\<lambda>r. name r = ''Uncategorized'' \<or> patterns r = [])
     [\<lparr>name = ''Supermercado'', priority = 10, patterns = [''LULU'', ''^CARREFOUR''],
        is_regex_flags = [False, True]\<rparr>,
      \<lparr>name = ''Cash'', priority = 10, patterns = [''ATM''], is_regex_flags = [False]\<rparr>,
      \<lparr>name = ''Ocio'', priority = 20, patterns = [''NETFLIX''], is_regex_flags = [False]\<rparr>]"
proof -
  let ?cats = "[\<lparr>cat_id = 1, cat_name = ''Uncategorized'', cat_priority = 0,
        cat_keywords = [\<lparr>kw_id = 1, kw_pattern = ''X'', kw_is_regex = False, kw_enabled = True\<rparr>]\<rparr>,
      \<lparr>cat_id = 2, cat_name = ''Ocio'', cat_priority = 20,
        cat_keywords = [\<lparr>kw_id = 2, kw_pattern = ''NETFLIX'', kw_is_regex = False, kw_enabled = True\<rparr>]\<rparr>,
      \<lparr>cat_id = 3, cat_name = ''Viajes'', cat_priority = 5,
        cat_keywords = [\<lparr>kw_id = 3, kw_pattern = ''HOTEL'', kw_is_regex = False, kw_enabled = False\<rparr>]\<rparr>,
      \<lparr>cat_id = 4, cat_name = ''Supermercado'', cat_priority = 10,
        cat_keywords = [\<lparr>kw_id = 4, kw_pattern = ''LULU'', kw_is_regex = False, kw_enabled = True\<rparr>,
                        \<lparr>kw_id = 5, kw_pattern = ''COOP'', kw_is_regex = False, kw_enabled = False\<rparr>,
                        \<lparr>kw_id = 6, kw_pattern = ''^CARREFOUR'', kw_is_regex = True, kw_enabled = True\<rparr>]\<rparr>,
      \<lparr>cat_id = 5, cat_name = ''Cash'', cat_priority = 10,
        cat_keywords = [\<lparr>kw_id = 7, kw_pattern = ''ATM'', kw_is_regex = False, kw_enabled = True\<rparr>]\<rparr>]"
  let ?rules = "[\<lparr>name = ''Supermercado'', priority = 10, patterns = [''LULU'', ''^CARREFOUR''],
        is_regex_flags = [False, True]\<rparr>,
      \<lparr>name = ''Cash'', priority = 10, patterns = [''ATM''], is_regex_flags = [False]\<rparr>,
      \<lparr>name = ''Ocio'', priority = 20, patterns = [''NETFLIX''], is_regex_flags = [False]\<rparr>]"
  have e: "build_rules_from_storage ?cats = ?rules" by code_simp
  have g: "\<And>xs. \<forall>r\<in>set xs. name r \<noteq> ''Uncategorized'' \<and> patterns r \<noteq> [] \<Longrightarrow>
             \<not> list_ex (\<lambda>r. name r = ''Uncategorized'' \<or> patterns r = []) xs"
    by (auto simp: list_ex_iff)
  from rule_compilation[of ?cats 10]
  have "\<forall>r\<in>set (build_rules_from_storage ?cats). name r \<noteq> ''Uncategorized'' \<and> patterns r \<noteq> []"
    by (elim conjE)
  then have "\<not> list_ex (\<lambda>r. name r = ''Uncategorized'' \<or> patterns r = [])
               (build_rules_from_storage ?cats)"
    by (rule g)
  then have n: "\<not> list_ex (\<lambda>r. name r = ''Uncategorized'' \<or> patterns r = []) ?rules"
    unfolding e .
  show ?thesis by (intro conjI) (rule e, rule n)
qed

section \<open>Fuzzy matching: the claim\<close>

lemma extractOne_first_best:
  "(extractOne score best cs = best \<and> (\<forall>c\<in>set cs. score c \<le> score best)) \<or>
   (\<exists>pre post. cs = pre @ extractOne score best cs # post \<and>
      score best < score (extractOne score best cs) \<and>
      (\<forall>c\<in>set pre. score c < score (extractOne score best cs)) \<and>
      (\<forall>c\<in>set post. score c \<le> score (extractOne score best cs)))"
proof (induction cs arbitrary: best)
  case Nil
  show ?case by simp
next
  case (Cons t ts)
  show ?case
  proof (cases "score best < score t")
    case True
    from Cons[of t] show ?thesis
    proof
      assume h: "extractOne score t ts = t \<and> (\<forall>c\<in>set ts. score c \<le> score t)"
      have "t # ts = [] @ extractOne score best (t # ts) # ts" using True h by simp
      moreover have "score best < score (extractOne score best (t # ts))" using True h by simp
      moreover have "\<forall>c\<in>set ts. score c \<le> score (extractOne score best (t # ts))"
        using True h by simp
      ultimately show ?thesis by (metis empty_iff list.set(1))
    next
      assume "\<exists>pre post. ts = pre @ extractOne score t ts # post \<and>
        score t < score (extractOne score t ts) \<and>
        (\<forall>c\<in>set pre. score c < score (extractOne score t ts)) \<and>
        (\<forall>c\<in>set post. score c \<le> score (extractOne score t ts))"
      then obtain pre post where h: "ts = pre @ extractOne score t ts # post"
        "score t < score (extractOne score t ts)"
        "\<forall>c\<in>set pre. score c < score (extractOne score t ts)"
        "\<forall>c\<in>set post. score c \<le> score (extractOne score t ts)" by blast
      have "t # ts = (t # pre) @ extractOne score best (t # ts) # post" using True h(1) by simp
      moreover have "\<forall>c\<in>set (t # pre). score c < score (extractOne score best (t # ts))"
        using True h(2,3) by simp
      moreover have "score best < score (extractOne score best (t # ts))" using True h(2) by simp
      moreover have "\<forall>c\<in>set post. score c \<le> score (extractOne score best (t # ts))"
        using True h(4) by simp
      ultimately show ?thesis by blast
    qed
  next
    case False
    from Cons[of best] show ?thesis
    proof
      assume "extractOne score best ts = best \<and> (\<forall>c\<in>set ts. score c \<le> score best)"
      then show ?thesis using False by simp
    next
      assume "\<exists>pre post. ts = pre @ extractOne score best ts # post \<and>
        score best < score (extractOne score best ts) \<and>
        (\<forall>c\<in>set pre. score c < score (extractOne score best ts)) \<and>
        (\<forall>c\<in>set post. score c \<le> score (extractOne score best ts))"
      then obtain pre post where h: "ts = pre @ extractOne score best ts # post"
        "score best < score (extractOne score best ts)"
        "\<forall>c\<in>set pre. score c < score (extractOne score best ts)"
        "\<forall>c\<in>set post. score c \<le> score (extractOne score best ts)" by blast
      have "t # ts = (t # pre) @ extractOne score best (t # ts) # post" using False h(1) by simp
      moreover have "\<forall>c\<in>set (t # pre). score c < score (extractOne score best (t # ts))"
        using False h(2,3) by auto
      moreover have "score best < score (extractOne score best (t # ts))" using False h(2) by simp
      moreover have "\<forall>c\<in>set post. score c \<le> score (extractOne score best (t # ts))"
        using False h(4) by simp
      ultimately show ?thesis by blast
    qed
  qed
qed

lemma extractOne_split:
  "\<exists>pre post. c # cs = pre @ extractOne score c cs # post \<and>
      (\<forall>x\<in>set pre. score x < score (extractOne score c cs)) \<and>
      (\<forall>x\<in>set post. score x \<le> score (extractOne score c cs))"
  using extractOne_first_best[of score c cs]
proof
  assume h: "extractOne score c cs = c \<and> (\<forall>x\<in>set cs. score x \<le> score c)"
  then have "c # cs = [] @ extractOne score c cs # cs" by simp
  then show ?thesis using h by (metis empty_iff list.set(1))
next
  assume "\<exists>pre post. cs = pre @ extractOne score c cs # post \<and>
      score c < score (extractOne score c cs) \<and>
      (\<forall>x\<in>set pre. score x < score (extractOne score c cs)) \<and>
      (\<forall>x\<in>set post. score x \<le> score (extractOne score c cs))"
  then obtain pre post where h: "cs = pre @ extractOne score c cs # post"
      "score c < score (extractOne score c cs)"
      "\<forall>x\<in>set pre. score x < score (extractOne score c cs)"
      "\<forall>x\<in>set post. score x \<le> score (extractOne score c cs)" by blast
  have "c # cs = (c # pre) @ extractOne score c cs # post" using h(1) by simp
  moreover have "\<forall>x\<in>set (c # pre). score x < score (extractOne score c cs)" using h(2,3) by simp
  ultimately show ?thesis using h(4) by blast
qed

text \<open>
  Claim C9. The fuzzy fallback returns nothing when the similarity library is missing,
  when the stripped, lower-cased details are empty, or when there is no candidate.
  Otherwise it returns nothing exactly when every candidate scores below the threshold,
  and else the first candidate of greatest score, which reaches the threshold. The
  default threshold is 80.
\<close>

theorem fuzzy_fallback:
  "fuzzy_categorize_single_details False scorer details candidate_categories threshold = None \<and>
   (normalize_text details = [] \<or> candidate_categories = [] \<longrightarrow>
      fuzzy_categorize_single_details has_rapidfuzz scorer details candidate_categories threshold = None) \<and>
   (normalize_text details \<noteq> [] \<longrightarrow>
      (case fuzzy_categorize_single_details True scorer details candidate_categories threshold of
         None \<Rightarrow> \<forall>c\<in>set candidate_categories. scorer (normalize_text details) c < of_int threshold
       | Some b \<Rightarrow>
           of_int threshold \<le> scorer (normalize_text details) b \<and>
           (\<exists>pre post. candidate_categories = pre @ b # post \<and>
              (\<forall>c\<in>set pre. scorer (normalize_text details) c < scorer (normalize_text details) b) \<and>
              (\<forall>c\<in>set post. scorer (normalize_text details) c \<le> scorer (normalize_text details) b)))) \<and>
   fuzzy_categorize_single_details_default has_rapidfuzz scorer details candidate_categories =
     fuzzy_categorize_single_details has_rapidfuzz scorer details candidate_categories 80 \<and>
   normalize_text details = lower (strip details)"
proof (intro conjI impI)
  show "fuzzy_categorize_single_details False scorer details candidate_categories threshold = None"
    by (simp add: fuzzy_categorize_single_details_def)
  show "fuzzy_categorize_single_details has_rapidfuzz scorer details candidate_categories threshold = None"
    if "normalize_text details = [] \<or> candidate_categories = []"
    using that by (auto simp: fuzzy_categorize_single_details_def Let_def)
  show "fuzzy_categorize_single_details_default has_rapidfuzz scorer details candidate_categories =
     fuzzy_categorize_single_details has_rapidfuzz scorer details candidate_categories 80"
    by (simp add: fuzzy_categorize_single_details_default_def)
  show "normalize_text details = lower (strip details)"
    by (simp add: normalize_text_def)
  assume ne: "normalize_text details \<noteq> []"
  let ?sc = "scorer (normalize_text details)"
  show "case fuzzy_categorize_single_details True scorer details candidate_categories threshold of
         None \<Rightarrow> \<forall>c\<in>set candidate_categories. ?sc c < of_int threshold
       | Some b \<Rightarrow>
           of_int threshold \<le> ?sc b \<and>
           (\<exists>pre post. candidate_categories = pre @ b # post \<and>
              (\<forall>c\<in>set pre. ?sc c < ?sc b) \<and> (\<forall>c\<in>set post. ?sc c \<le> ?sc b))"
  proof (cases candidate_categories)
    case Nil
    then show ?thesis by (simp add: fuzzy_categorize_single_details_def Let_def)
  next
    case (Cons c cs)
    let ?b = "extractOne ?sc c cs"
    from extractOne_split[of c cs ?sc]
    obtain pre post where sp: "c # cs = pre @ ?b # post"
      "\<forall>x\<in>set pre. ?sc x < ?sc ?b" "\<forall>x\<in>set post. ?sc x \<le> ?sc ?b" by blast
    show ?thesis
    proof (cases "of_int threshold \<le> ?sc ?b")
      case True
      then have r: "fuzzy_categorize_single_details True scorer details candidate_categories threshold = Some ?b"
        using ne Cons by (simp add: fuzzy_categorize_single_details_def Let_def)
      show ?thesis unfolding r using True sp Cons by auto
    next
      case False
      then have r: "fuzzy_categorize_single_details True scorer details candidate_categories threshold = None"
        using ne Cons by (simp add: fuzzy_categorize_single_details_def Let_def)
      have "\<forall>x\<in>set (c # cs). ?sc x \<le> ?sc ?b"
        unfolding sp(1) using sp(2,3) by auto
      then have "\<forall>x\<in>set candidate_categories. ?sc x < of_int threshold"
        using False Cons by (metis le_less_trans not_le)
      then show ?thesis unfolding r by simp
    qed
  qed
qed

theorem fuzzy_fallback_witness:
  "normalize_text '' Netflix OCIO '' = ''netflix ocio'' \<and>
   fuzzy_categorize_single_details True (\<lambda>t c. if str_in c t then 100 else (0::int))
     '' Netflix OCIO '' [''super'', ''ocio'', ''cash'', ''netflix''] 80 = Some ''ocio'' \<and>
   (\<exists>pre post. [''super'', ''ocio'', ''cash'', ''netflix''] = pre @ ''ocio'' # post \<and>
      (\<forall>c\<in>set pre. (if str_in c (normalize_text '' Netflix OCIO '') then 100 else (0::int)) <
                     (if str_in ''ocio'' (normalize_text '' Netflix OCIO '') then 100 else 0)) \<and>
      (\<forall>c\<in>set post. (if str_in c (normalize_text '' Netflix OCIO '') then 100 else (0::int)) \<le>
                     (if str_in ''ocio'' (normalize_text '' Netflix OCIO '') then 100 else 0))) \<and>
   fuzzy_categorize_single_details True (\<lambda>t c. if str_in c t then 100 else (0::int))
     '' Netflix OCIO '' [''super'', ''cash''] 80 = None \<and>
   normalize_text ''   '' = [] \<and>
   fuzzy_categorize_single_details True (\<lambda>t c. if str_in c t then 100 else (0::int))
     ''   '' [''super'', ''ocio'', ''cash'', ''netflix''] 80 = None"
proof -
  let ?sc = "\<lambda>t c. if str_in c t then 100 else (0::int)"
  let ?cands = "[''super'', ''ocio'', ''cash'', ''netflix'']"
  have n: "normalize_text '' Netflix OCIO '' = ''netflix ocio''" by code_simp
  have ne: "normalize_text '' Netflix OCIO '' \<noteq> []" by (simp only: n) simp
  have r: "fuzzy_categorize_single_details True ?sc '' Netflix OCIO '' ?cands 80 = Some ''ocio''"
    by code_simp
  have r2: "fuzzy_categorize_single_details True ?sc '' Netflix OCIO '' [''super'', ''cash''] 80 = None"
    by code_simp
  have n3: "normalize_text ''   '' = []" by code_simp
  from fuzzy_fallback[of ?sc "''   ''" ?cands 80 True]
  have "normalize_text ''   '' = [] \<or> ?cands = [] \<longrightarrow>
      fuzzy_categorize_single_details True ?sc ''   '' ?cands 80 = None"
    by (elim conjE)
  then have r3: "fuzzy_categorize_single_details True ?sc ''   '' ?cands 80 = None"
    using n3 by blast
  from fuzzy_fallback[of ?sc "'' Netflix OCIO ''" ?cands 80 True]
  have "normalize_text '' Netflix OCIO '' \<noteq> [] \<longrightarrow>
      (case fuzzy_categorize_single_details True ?sc '' Netflix OCIO '' ?cands 80 of
         None \<Rightarrow> \<forall>c\<in>set ?cands. ?sc (normalize_text '' Netflix OCIO '') c < of_int 80
       | Some b \<Rightarrow>
           of_int 80 \<le> ?sc (normalize_text '' Netflix OCIO '') b \<and>
           (\<exists>pre post. ?cands = pre @ b # post \<and>
              (\<forall>c\<in>set pre. ?sc (normalize_text '' Netflix OCIO '') c <
                             ?sc (normalize_text '' Netflix OCIO '') b) \<and>
              (\<forall>c\<in>set post. ?sc (normalize_text '' Netflix OCIO '') c \<le>
                             ?sc (normalize_text '' Netflix OCIO '') b)))"
    by (elim conjE)
  then have "case fuzzy_categorize_single_details True ?sc '' Netflix OCIO '' ?cands 80 of
         None \<Rightarrow> \<forall>c\<in>set ?cands. ?sc (normalize_text '' Netflix OCIO '') c < of_int 80
       | Some b \<Rightarrow>
           of_int 80 \<le> ?sc (normalize_text '' Netflix OCIO '') b \<and>
           (\<exists>pre post. ?cands = pre @ b # post \<and>
              (\<forall>c\<in>set pre. ?sc (normalize_text '' Netflix OCIO '') c <
                             ?sc (normalize_text '' Netflix OCIO '') b) \<and>
              (\<forall>c\<in>set post. ?sc (normalize_text '' Netflix OCIO '') c \<le>
                             ?sc (normalize_text '' Netflix OCIO '') b))"
    using ne by (rule mp)
  then have k: "\<exists>pre post. ?cands = pre @ ''ocio'' # post \<and>
              (\<forall>c\<in>set pre. ?sc (normalize_text '' Netflix OCIO '') c <
                             ?sc (normalize_text '' Netflix OCIO '') ''ocio'') \<and>
              (\<forall>c\<in>set post. ?sc (normalize_text '' Netflix OCIO '') c \<le>
                             ?sc (normalize_text '' Netflix OCIO '') ''ocio'')"
    by (simp only: r option.case)
  show ?thesis by (intro conjI) (rule n, rule r, rule k, rule r2, rule n3, rule r3)
qed

section \<open>Stored patterns and learning: the claims\<close>

lemma dropWhile_none: "\<forall>c\<in>set t. \<not> P c \<Longrightarrow> dropWhile P t = t"
  by (cases t) auto

lemma strip_no_space: "\<forall>c\<in>set s. \<not> isspace c \<Longrightarrow> strip s = s"
  by (simp add: strip_def dropWhile_none)






lemma isspace_upper_char: "isspace (upper_char c) = isspace c"
  by (auto simp: isspace_def Let_def of_char_upper_char)

lemma re_split_ws_no_space:
  "t \<in> set (re_split_ws cur s) \<Longrightarrow> \<forall>c\<in>set cur. \<not> isspace c \<Longrightarrow> \<forall>c\<in>set t. \<not> isspace c"
proof (induction cur s rule: re_split_ws.induct)
  case (1 cur)
  then show ?case by simp
next
  case (2 cur c cs)
  show ?case
  proof (cases "isspace c")
    case True
    with 2(3) have "t = rev cur \<or> t \<in> set (re_split_ws [] (dropWhile isspace cs))" by simp
    then show ?thesis
    proof
      assume "t = rev cur"
      then show ?thesis using 2(4) by simp
    next
      assume "t \<in> set (re_split_ws [] (dropWhile isspace cs))"
      then show ?thesis using 2(1)[OF True] by simp
    qed
  next
    case False
    with 2(3) have "t \<in> set (re_split_ws (c # cur) cs)" by simp
    then show ?thesis using 2(2)[OF False] 2(4) False by simp
  qed
qed

lemma max_by_len_in: "max_by_len best ts \<in> set (best # ts)"
  by (induction ts arbitrary: best) auto

lemma extract_keyword_clean:
  assumes "extract_keyword_from_details d = Some k"
  shows "k \<noteq> [] \<and> strip k = k"
proof -
  let ?cands = "filter (\<lambda>t. 3 \<le> length t \<and> \<not> fullmatch_number t) (re_split_ws [] (strip d))"
  from assms obtain c cs where cs: "?cands = c # cs" and k: "k = upper (max_by_len c cs)"
    by (auto simp: extract_keyword_from_details_def Let_def split: if_splits list.splits)
  let ?t = "max_by_len c cs"
  have "?t \<in> set ?cands" unfolding cs by (rule max_by_len_in)
  then have len: "3 \<le> length ?t" and tok: "?t \<in> set (re_split_ws [] (strip d))" by simp_all
  from re_split_ws_no_space[OF tok] have "\<forall>x\<in>set ?t. \<not> isspace x" by simp
  then have "\<forall>x\<in>set k. \<not> isspace x" unfolding k by (simp add: upper_def isspace_upper_char)
  then have "strip k = k" by (rule strip_no_space)
  moreover have "k \<noteq> []" using len unfolding k by (auto simp: upper_def)
  ultimately show ?thesis by simp
qed

lemma find_Some_mem: "find P xs = Some x \<Longrightarrow> P x \<and> x \<in> set xs"
  by (induction xs) (auto split: if_splits)

lemma learn_row_cases:
  "learn_row db details new_cat_name =
     (case extract_keyword_from_details details of
        None \<Rightarrow> db
      | Some keyword \<Rightarrow>
          (case get_category_id_by_name db new_cat_name of
             None \<Rightarrow> db
           | Some category_id \<Rightarrow>
               db\<lparr>keywords_table := keywords_table db @
                     [\<lparr>kr_id = next_keyword_id db, kr_category_id = category_id,
                       kr_pattern = keyword, kr_is_regex = False, kr_enabled = True\<rparr>],
                   keywords_seq := next_keyword_id db\<rparr>))"
proof (cases "extract_keyword_from_details details")
  case None
  then show ?thesis by (simp add: learn_row_def)
next
  case (Some k)
  from extract_keyword_clean[OF Some] have "k \<noteq> []" "strip k = k" by simp_all
  then show ?thesis using Some
    by (simp add: learn_row_def add_keyword_def split: option.splits)
qed

lemma learn_row_categories: "categories_table (learn_row db details new_cat_name) = categories_table db"
  by (simp add: learn_row_cases split: option.splits)

lemma learn_loop_categories: "categories_table (learn_loop db rows) = categories_table db"
  by (induction rows arbitrary: db) (simp_all add: learn_row_categories)

lemma apply_changes_learn_loop:
  "apply_changes db merged =
     learn_loop db (filter (\<lambda>row. fst (snd row) \<noteq> Some (snd (snd row))) merged)"
  by (simp add: apply_changes_def Let_def)

text \<open>
  Claim C8. An edited row whose new category equals the one shown changes nothing. For
  a changed row the keyword is extracted from the details; when there is one and the
  new category name resolves to a category id, exactly one keyword row is appended,
  enabled and not a regex, with that pattern and that id; when there is no keyword or
  the name does not resolve, the database is unchanged. A batch of rows is handled row
  by row, and the categories table is never changed. A name resolves exactly when its
  stripped form is not empty and is the name of a category.
\<close>

theorem learning_feedback:
  "apply_changes db [(details, category, new_category)] =
     (if category = Some new_category then db
      else case extract_keyword_from_details details of
             None \<Rightarrow> db
           | Some keyword \<Rightarrow>
               (case get_category_id_by_name db new_category of
                  None \<Rightarrow> db
                | Some category_id \<Rightarrow>
                    db\<lparr>keywords_table := keywords_table db @
                          [\<lparr>kr_id = next_keyword_id db, kr_category_id = category_id,
                            kr_pattern = keyword, kr_is_regex = False, kr_enabled = True\<rparr>],
                        keywords_seq := next_keyword_id db\<rparr>)) \<and>
   apply_changes db (row # rows) = apply_changes (apply_changes db [row]) rows \<and>
   categories_table (apply_changes db rows) = categories_table db \<and>
   (get_category_id_by_name db new_category = None) =
     (strip new_category = [] \<or>
      (\<forall>r\<in>set (categories_table db). cr_name r \<noteq> strip new_category)) \<and>
   (\<forall>category_id. get_category_id_by_name db new_category = Some category_id \<longrightarrow>
      (\<exists>r\<in>set (categories_table db). cr_id r = category_id \<and> cr_name r = strip new_category))"
proof (intro conjI allI impI)
  show "apply_changes db [(details, category, new_category)] =
     (if category = Some new_category then db
      else case extract_keyword_from_details details of
             None \<Rightarrow> db
           | Some keyword \<Rightarrow>
               (case get_category_id_by_name db new_category of
                  None \<Rightarrow> db
                | Some category_id \<Rightarrow>
                    db\<lparr>keywords_table := keywords_table db @
                          [\<lparr>kr_id = next_keyword_id db, kr_category_id = category_id,
                            kr_pattern = keyword, kr_is_regex = False, kr_enabled = True\<rparr>],
                        keywords_seq := next_keyword_id db\<rparr>))"
    by (simp add: apply_changes_learn_loop learn_row_cases)
  show "apply_changes db (row # rows) = apply_changes (apply_changes db [row]) rows"
    by (simp add: apply_changes_learn_loop)
  show "categories_table (apply_changes db rows) = categories_table db"
    by (simp only: apply_changes_learn_loop learn_loop_categories)
  show "(get_category_id_by_name db new_category = None) =
     (strip new_category = [] \<or>
      (\<forall>r\<in>set (categories_table db). cr_name r \<noteq> strip new_category))"
    by (auto simp: get_category_id_by_name_def Let_def find_None_iff split: option.splits
          dest: find_Some_mem)
  fix category_id
  assume "get_category_id_by_name db new_category = Some category_id"
  then show "\<exists>r\<in>set (categories_table db). cr_id r = category_id \<and> cr_name r = strip new_category"
    by (auto simp: get_category_id_by_name_def Let_def split: option.splits if_splits
          dest: find_Some_mem)
qed

theorem learning_feedback_witness:
  "apply_changes
     \<lparr>categories_table = [\<lparr>cr_id = 1, cr_name = ''Uncategorized'', cr_priority = 999\<rparr>,
                           \<lparr>cr_id = 2, cr_name = ''Supermercado'', cr_priority = 10\<rparr>],
      keywords_table = [], keywords_seq = 0\<rparr>
     [(''COMPRA LULU HYPERMARKET 45.67'', Some ''Uncategorized'', ''Supermercado'')] =
     \<lparr>categories_table = [\<lparr>cr_id = 1, cr_name = ''Uncategorized'', cr_priority = 999\<rparr>,
                           \<lparr>cr_id = 2, cr_name = ''Supermercado'', cr_priority = 10\<rparr>],
      keywords_table = [\<lparr>kr_id = 1, kr_category_id = 2, kr_pattern = ''HYPERMARKET'',
                          kr_is_regex = False, kr_enabled = True\<rparr>],
      keywords_seq = 1\<rparr> \<and>
   get_category_id_by_name
     \<lparr>categories_table = [\<lparr>cr_id = 1, cr_name = ''Uncategorized'', cr_priority = 999\<rparr>,
                           \<lparr>cr_id = 2, cr_name = ''Supermercado'', cr_priority = 10\<rparr>],
      keywords_table = [], keywords_seq = 0\<rparr> ''Ocio'' = None \<and>
   apply_changes
     \<lparr>categories_table = [\<lparr>cr_id = 1, cr_name = ''Uncategorized'', cr_priority = 999\<rparr>,
                           \<lparr>cr_id = 2, cr_name = ''Supermercado'', cr_priority = 10\<rparr>],
      keywords_table = [], keywords_seq = 0\<rparr>
     [(''PAGO NETFLIX'', Some ''Uncategorized'', ''Ocio'')] =
     \<lparr>categories_table = [\<lparr>cr_id = 1, cr_name = ''Uncategorized'', cr_priority = 999\<rparr>,
                           \<lparr>cr_id = 2, cr_name = ''Supermercado'', cr_priority = 10\<rparr>],
      keywords_table = [], keywords_seq = 0\<rparr> \<and>
   get_category_id_by_name
     \<lparr>categories_table = [\<lparr>cr_id = 1, cr_name = ''Uncategorized'', cr_priority = 999\<rparr>,
                           \<lparr>cr_id = 2, cr_name = ''Supermercado'', cr_priority = 10\<rparr>],
      keywords_table = [], keywords_seq = 0\<rparr> '' Supermercado'' = Some 2 \<and>
   (\<exists>r\<in>set (categories_table
       \<lparr>categories_table = [\<lparr>cr_id = 1, cr_name = ''Uncategorized'', cr_priority = 999\<rparr>,
                             \<lparr>cr_id = 2, cr_name = ''Supermercado'', cr_priority = 10\<rparr>],
        keywords_table = [], keywords_seq = 0\<rparr>).
      cr_id r = 2 \<and> cr_name r = strip '' Supermercado'')"
proof -
  let ?db = "\<lparr>categories_table = [\<lparr>cr_id = 1, cr_name = ''Uncategorized'', cr_priority = 999\<rparr>,
                           \<lparr>cr_id = 2, cr_name = ''Supermercado'', cr_priority = 10\<rparr>],
      keywords_table = [], keywords_seq = 0\<rparr>"
  have a: "apply_changes ?db
     [(''COMPRA LULU HYPERMARKET 45.67'', Some ''Uncategorized'', ''Supermercado'')] =
     \<lparr>categories_table = [\<lparr>cr_id = 1, cr_name = ''Uncategorized'', cr_priority = 999\<rparr>,
                           \<lparr>cr_id = 2, cr_name = ''Supermercado'', cr_priority = 10\<rparr>],
      keywords_table = [\<lparr>kr_id = 1, kr_category_id = 2, kr_pattern = ''HYPERMARKET'',
                          kr_is_regex = False, kr_enabled = True\<rparr>],
      keywords_seq = 1\<rparr>"
    by code_simp
  have b: "get_category_id_by_name ?db ''Ocio'' = None" by code_simp
  have c: "apply_changes ?db [(''PAGO NETFLIX'', Some ''Uncategorized'', ''Ocio'')] = ?db"
    by code_simp
  have d: "get_category_id_by_name ?db '' Supermercado'' = Some 2" by code_simp
  from learning_feedback[of ?db "[]" None "'' Supermercado''" "([], None, [])" "[]"]
  have "\<forall>category_id. get_category_id_by_name ?db '' Supermercado'' = Some category_id \<longrightarrow>
      (\<exists>r\<in>set (categories_table ?db). cr_id r = category_id \<and> cr_name r = strip '' Supermercado'')"
    by (elim conjE)
  then have e: "\<exists>r\<in>set (categories_table ?db). cr_id r = 2 \<and> cr_name r = strip '' Supermercado''"
    using d by blast
  show ?thesis by (intro conjI) (rule a, rule b, rule c, rule d, rule e)
qed




end
